theory Spec2Isabelle
  imports Main "HOL-Library.Word"
begin

section \<open>Machine types and constants\<close>

type_synonym Uint32 = "32 word"
type_synonym Uint64 = "64 word"
type_synonym SDL_TimerID = "32 word"

text \<open>
  Modelled from the spec: the unit macros \<^verbatim>\<open>SDL_NS_PER_MS\<close>,
  \<^verbatim>\<open>SDL_NS_PER_SECOND\<close>, \<^verbatim>\<open>SDL_MS_PER_SECOND\<close>,
  \<^verbatim>\<open>SDL_MS_TO_NS\<close> and \<^verbatim>\<open>SDL_NS_TO_MS\<close> are used by the timer source but
  declared in a header that is not part of the sources at hand.  The spec fixes
  \<open>SHORT = 1_000_000 ns (1 ms)\<close> and converts a callback interval between
  milliseconds and nanoseconds; the conversions are the 64-bit multiplication and
  division by the number of nanoseconds in a millisecond.
\<close>

definition SDL_NS_PER_MS :: Uint64 where
  "SDL_NS_PER_MS = 1000000"

definition SDL_NS_PER_SECOND :: Uint32 where
  "SDL_NS_PER_SECOND = 1000000000"

definition SDL_MS_PER_SECOND :: Uint32 where
  "SDL_MS_PER_SECOND = 1000"

definition SDL_MS_TO_NS :: "Uint32 \<Rightarrow> Uint64" where
  "SDL_MS_TO_NS ms = ucast ms * SDL_NS_PER_MS"

definition SDL_NS_TO_MS :: "Uint64 \<Rightarrow> Uint64" where
  "SDL_NS_TO_MS ns = ns div SDL_NS_PER_MS"

section \<open>Precise delay (\<^verbatim>\<open>SDL_DelayPrecise\<close>)\<close>

text \<open>
  The function talks to two collaborators: the monotonic clock
  \<^verbatim>\<open>SDL_GetTicksNS\<close> and the sleep primitives \<^verbatim>\<open>SDL_SYS_DelayNS\<close> and
  \<^verbatim>\<open>SDL_CPUPauseInstruction\<close>.  The clock is a list of readings, one per call of
  \<^verbatim>\<open>SDL_GetTicksNS\<close> in program order; the sleep requests and CPU pauses are
  collected as a list of events, in program order.  Every loop of the source
  reads the clock once per iteration, so every loop is a structural recursion
  over the readings.  A run that needs more readings than the list holds ends
  in \<open>Ticks_Exhausted\<close>; a run that reaches a \<^verbatim>\<open>return\<close> or the end of the
  function ends in \<open>Returned c\<close>, where \<open>c\<close> is the last clock reading the
  function has taken.
\<close>

datatype event = SYS_DelayNS Uint64 | CPUPause

datatype outcome = Returned Uint64 | Ticks_Exhausted

type_synonym run = "event list \<times> outcome"

definition SHORT_SLEEP_NS :: Uint64 where
  "SHORT_SLEEP_NS = 1 * SDL_NS_PER_MS"

fun emit :: "event \<Rightarrow> run \<Rightarrow> run" where
  "emit e (es, out) = (e # es, out)"

text \<open>Delay step 5: spin with CPU pauses while \<open>current_value < target_value\<close>.\<close>

fun step_5 :: "Uint64 \<Rightarrow> Uint64 \<Rightarrow> Uint64 list \<Rightarrow> run" where
  "step_5 target_value current_value [] =
     (if current_value < target_value then ([CPUPause], Ticks_Exhausted)
      else ([], Returned current_value))"
| "step_5 target_value current_value (now # ticks) =
     (if current_value < target_value then emit CPUPause (step_5 target_value now ticks)
      else ([], Returned current_value))"

text \<open>Delay step 4: zero-duration sleeps, then step 5.\<close>

fun step_4 :: "Uint64 \<Rightarrow> Uint64 \<Rightarrow> Uint64 list \<Rightarrow> run" where
  "step_4 target_value current_value [] =
     (if current_value + SHORT_SLEEP_NS < target_value then ([SYS_DelayNS 0], Ticks_Exhausted)
      else step_5 target_value current_value [])"
| "step_4 target_value current_value (now # ticks) =
     (if current_value + SHORT_SLEEP_NS < target_value
      then emit (SYS_DelayNS 0) (step_4 target_value now ticks)
      else step_5 target_value current_value (now # ticks))"

text \<open>Delay step 3: 1 ms sleeps accepting overshoot, then step 4.\<close>

fun step_3 :: "Uint64 \<Rightarrow> Uint64 \<Rightarrow> Uint64 list \<Rightarrow> run" where
  "step_3 target_value current_value [] =
     (if current_value + 2 * SHORT_SLEEP_NS < target_value
      then ([SYS_DelayNS SHORT_SLEEP_NS], Ticks_Exhausted)
      else step_4 target_value current_value [])"
| "step_3 target_value current_value (now # ticks) =
     (if current_value + 2 * SHORT_SLEEP_NS < target_value
      then emit (SYS_DelayNS SHORT_SLEEP_NS)
             (if now \<ge> target_value then ([], Returned now)
              else step_3 target_value now ticks)
      else step_4 target_value current_value (now # ticks))"

text \<open>Delay step 2: 1 ms sleeps that track the longest observed sleep, then step 3.\<close>

fun step_2 :: "Uint64 \<Rightarrow> Uint64 \<Rightarrow> Uint64 \<Rightarrow> Uint64 list \<Rightarrow> run" where
  "step_2 target_value max_sleep_ns current_value [] =
     (if current_value + max_sleep_ns < target_value
      then ([SYS_DelayNS SHORT_SLEEP_NS], Ticks_Exhausted)
      else step_3 target_value current_value [])"
| "step_2 target_value max_sleep_ns current_value (now # ticks) =
     (if current_value + max_sleep_ns < target_value
      then emit (SYS_DelayNS SHORT_SLEEP_NS)
             (if now \<ge> target_value then ([], Returned now)
              else (let next_sleep_ns = now - current_value
                    in step_2 target_value
                         (if next_sleep_ns > max_sleep_ns then next_sleep_ns else max_sleep_ns)
                         now ticks))
      else step_3 target_value current_value (now # ticks))"

definition step_2_entry :: "Uint64 \<Rightarrow> Uint64 \<Rightarrow> Uint64 \<Rightarrow> Uint64 list \<Rightarrow> run" where
  "step_2_entry target_value current_value max_overshoot_ns ticks =
     (let max_sleep_ns = SHORT_SLEEP_NS;
          max_sleep_ns = (if max_overshoot_ns < max_sleep_ns
                          then max_sleep_ns + max_overshoot_ns else max_sleep_ns)
      in step_2 target_value max_sleep_ns current_value ticks)"

text \<open>
  Delay step 1.  The inner \<^verbatim>\<open>for\<close> loop divides \<open>target_sleep_ns\<close> by ten while it
  is above \<open>SHORT_SLEEP_NS\<close> and still crosses the guard band.
\<close>

function reduce_target_sleep :: "Uint64 \<Rightarrow> Uint64 \<Rightarrow> Uint64 \<Rightarrow> Uint64" where
  "reduce_target_sleep target_value current_value target_sleep_ns =
     (if target_sleep_ns > SHORT_SLEEP_NS \<and>
         current_value + target_sleep_ns + 10 * SHORT_SLEEP_NS > target_value
      then reduce_target_sleep target_value current_value (target_sleep_ns div 10)
      else target_sleep_ns)"
  by pat_completeness auto
termination
  apply (relation "measure (\<lambda>(t, c, s). unat s)")
   apply simp
  apply (clarsimp simp: SHORT_SLEEP_NS_def SDL_NS_PER_MS_def word_less_nat_alt unat_div)
  done

declare reduce_target_sleep.simps [simp del]

text \<open>
  The part of the body of the step 1 loop that follows the early \<^verbatim>\<open>return\<close>:
  it updates \<open>max_overshoot_ns\<close>, \<open>current_value\<close>, \<open>target_sleep_ns\<close> and
  \<open>current_sleep_ns\<close>, or leaves the loop by \<^verbatim>\<open>break\<close>.
\<close>

datatype step_1_next =
    Break Uint64 Uint64
  | Next Uint64 Uint64 Uint64 Uint64

definition step_1_body ::
  "Uint64 \<Rightarrow> Uint64 \<Rightarrow> Uint64 \<Rightarrow> Uint64 \<Rightarrow> Uint64 \<Rightarrow> Uint64 \<Rightarrow> step_1_next" where
  "step_1_body target_value current_value target_sleep_ns max_overshoot_ns current_sleep_ns now =
     (let overshoot_ns = (now - current_value) - current_sleep_ns;
          max1 = (if overshoot_ns > max_overshoot_ns then overshoot_ns else max_overshoot_ns);
          max2 = (if max1 \<ge> target_sleep_ns then 0 else max1)
      in if now + target_sleep_ns + 10 * SHORT_SLEEP_NS > target_value
         then (let ts = reduce_target_sleep target_value now ((target_value - now) div 10)
               in if ts \<le> SHORT_SLEEP_NS then Break now max2
                  else (let max3 = (if max2 \<ge> ts then 0 else max2)
                        in Next now ts max3 (ts - max3)))
         else Next now target_sleep_ns max2 (target_sleep_ns - max2))"

text \<open>
  One entry per call of \<^verbatim>\<open>SDL_SYS_DelayNS(current_sleep_ns)\<close> in step 1: the values
  of the locals at the call.
\<close>

record step_1_sleep =
  at_value :: Uint64
  target_sleep :: Uint64
  max_overshoot :: Uint64
  request :: Uint64

datatype step_1_exit =
    S1_Returned Uint64
  | S1_Exhausted
  | S1_Step2 Uint64 Uint64 "Uint64 list"

fun logged :: "step_1_sleep \<Rightarrow> step_1_sleep list \<times> step_1_exit \<Rightarrow> step_1_sleep list \<times> step_1_exit" where
  "logged s (ss, ex) = (s # ss, ex)"

fun step_1_loop ::
  "Uint64 \<Rightarrow> Uint64 \<Rightarrow> Uint64 \<Rightarrow> Uint64 \<Rightarrow> Uint64 \<Rightarrow> Uint64 list \<Rightarrow> step_1_sleep list \<times> step_1_exit" where
  "step_1_loop target_value current_value target_sleep_ns max_overshoot_ns current_sleep_ns [] =
     (if current_sleep_ns \<ge> 10 * SHORT_SLEEP_NS \<and>
         current_value + target_sleep_ns + 10 * SHORT_SLEEP_NS < target_value
      then ([\<lparr>at_value = current_value, target_sleep = target_sleep_ns,
              max_overshoot = max_overshoot_ns, request = current_sleep_ns\<rparr>], S1_Exhausted)
      else ([], S1_Step2 current_value max_overshoot_ns []))"
| "step_1_loop target_value current_value target_sleep_ns max_overshoot_ns current_sleep_ns (now # ticks) =
     (if current_sleep_ns \<ge> 10 * SHORT_SLEEP_NS \<and>
         current_value + target_sleep_ns + 10 * SHORT_SLEEP_NS < target_value
      then logged \<lparr>at_value = current_value, target_sleep = target_sleep_ns,
                   max_overshoot = max_overshoot_ns, request = current_sleep_ns\<rparr>
             (if now \<ge> target_value then ([], S1_Returned now)
              else (case step_1_body target_value current_value target_sleep_ns
                           max_overshoot_ns current_sleep_ns now of
                      Break c m \<Rightarrow> ([], S1_Step2 c m ticks)
                    | Next c t m s \<Rightarrow> step_1_loop target_value c t m s ticks))
      else ([], S1_Step2 current_value max_overshoot_ns (now # ticks)))"

definition step_1 :: "Uint64 \<Rightarrow> Uint64 \<Rightarrow> Uint64 \<Rightarrow> Uint64 list \<Rightarrow> step_1_sleep list \<times> step_1_exit" where
  "step_1 ns target_value current_value ticks =
     (let target_sleep_ns = ns div 10;
          max_overshoot_ns = 0
      in if target_sleep_ns \<ge> 10 * SHORT_SLEEP_NS
         then step_1_loop target_value current_value target_sleep_ns max_overshoot_ns
                (target_sleep_ns - SHORT_SLEEP_NS) ticks
         else ([], S1_Step2 current_value max_overshoot_ns ticks))"

definition sleeps_of :: "step_1_sleep list \<Rightarrow> event list" where
  "sleeps_of ss = map (\<lambda>s. SYS_DelayNS (request s)) ss"

fun after_step_1 :: "Uint64 \<Rightarrow> step_1_sleep list \<times> step_1_exit \<Rightarrow> run" where
  "after_step_1 target_value (ss, S1_Returned now) = (sleeps_of ss, Returned now)"
| "after_step_1 target_value (ss, S1_Exhausted) = (sleeps_of ss, Ticks_Exhausted)"
| "after_step_1 target_value (ss, S1_Step2 c m ticks) =
     (case step_2_entry target_value c m ticks of (es, out) \<Rightarrow> (sleeps_of ss @ es, out))"

definition SDL_DelayPrecise :: "Uint64 \<Rightarrow> Uint64 list \<Rightarrow> run" where
  "SDL_DelayPrecise ns clock =
     (case clock of
        [] \<Rightarrow> ([], Ticks_Exhausted)
      | current_value # ticks \<Rightarrow>
          (let target_value = current_value + ns
           in if ns \<le> 2 * SHORT_SLEEP_NS then step_4 target_value current_value ticks
              else after_step_1 target_value (step_1 ns target_value current_value ticks)))"

section \<open>Timer records, the registry and the scheduler state\<close>

text \<open>
  Timer records live in memory and are shared by pointer between the registry
  (\<^verbatim>\<open>entry->timer\<close>) and the scheduler's lists, so the state carries an explicit
  store \<open>heap\<close> from addresses to records.  A singly linked list through the
  \<^verbatim>\<open>next\<close> field is the list of the addresses of its nodes, head first; the
  null pointer is the empty list.  A callback is a nullable function pointer:
  \<open>None\<close> is \<^verbatim>\<open>NULL\<close>.  The \<^verbatim>\<open>userdata\<close> pointer is opaque and is a number.
\<close>

type_synonym addr = nat

type_synonym SDL_TimerCallback = "nat \<Rightarrow> SDL_TimerID \<Rightarrow> Uint32 \<Rightarrow> Uint32"
type_synonym SDL_NSTimerCallback = "nat \<Rightarrow> SDL_TimerID \<Rightarrow> Uint64 \<Rightarrow> Uint64"

record SDL_Timer =
  timerID :: SDL_TimerID
  callback_ms :: "SDL_TimerCallback option"
  callback_ns :: "SDL_NSTimerCallback option"
  userdata :: nat
  interval :: Uint64
  scheduled :: Uint64
  canceled :: int

record SDL_TimerMap =
  entry_timerID :: SDL_TimerID
  entry_timer :: addr

record SDL_TimerData =
  timermap :: "SDL_TimerMap list"
  pending :: "addr list"
  freelist :: "addr list"
  sem :: nat
  active :: int
  timers :: "addr list"
  heap :: "addr \<Rightarrow> SDL_Timer"

datatype error = InvalidParam string | Error string | OutOfMemory | InitFailed

subsection \<open>\<^verbatim>\<open>SDL_AddTimerInternal\<close>\<close>

text \<open>
  The \<^verbatim>\<open>for\<close> loop walks the list until the first node whose \<open>scheduled\<close> is
  greater than the new timer's; the timer is linked in before that node, or at
  the end.
\<close>

fun timers_insert :: "(addr \<Rightarrow> SDL_Timer) \<Rightarrow> addr \<Rightarrow> addr list \<Rightarrow> addr list" where
  "timers_insert h timer [] = [timer]"
| "timers_insert h timer (curr_node # rest) =
     (if scheduled (h curr_node) > scheduled (h timer) then timer # curr_node # rest
      else curr_node # timers_insert h timer rest)"

definition SDL_AddTimerInternal :: "SDL_TimerData \<Rightarrow> addr \<Rightarrow> SDL_TimerData" where
  "SDL_AddTimerInternal data timer =
     data\<lparr>timers := timers_insert (heap data) timer (timers data)\<rparr>"

definition timers_sorted :: "SDL_TimerData \<Rightarrow> bool" where
  "timers_sorted data = sorted (map (\<lambda>a. scheduled (heap data a)) (timers data))"

subsection \<open>\<^verbatim>\<open>SDL_TimerThread\<close>: maintenance and dispatch\<close>

text \<open>
  The start of one round of the worker: it takes the pending list, splices the
  local freelist of the previous round in front of the shared freelist, and
  sorts the pending timers into \<open>timers\<close>, head of the pending list first.
\<close>

definition SDL_TimerThread_maintenance :: "SDL_TimerData \<Rightarrow> addr list \<Rightarrow> SDL_TimerData" where
  "SDL_TimerThread_maintenance data local_freelist =
     (let pending_timers = pending data;
          data = data\<lparr>pending := [], freelist := local_freelist @ freelist data\<rparr>
      in foldl SDL_AddTimerInternal data pending_timers)"

text \<open>
  The call through the record's callback.  A millisecond callback takes the
  interval converted to milliseconds and truncated to 32 bits, and its result is
  converted back to nanoseconds.  With both pointers null the source calls a
  null function pointer: \<open>None\<close>.
\<close>

definition invoke_callback :: "SDL_Timer \<Rightarrow> Uint64 option" where
  "invoke_callback t =
     (case callback_ms t of
        Some cb \<Rightarrow> Some (SDL_MS_TO_NS (cb (userdata t) (timerID t) (ucast (SDL_NS_TO_MS (interval t)))))
      | None \<Rightarrow>
          (case callback_ns t of
             Some cb \<Rightarrow> Some (cb (userdata t) (timerID t) (interval t))
           | None \<Rightarrow> None))"

text \<open>
  One iteration of the loop \<^verbatim>\<open>while (data->timers)\<close> at the worker's sampled
  \<open>tick\<close>.  \<open>Dispatch_Wait delay\<close>: the loop ends (the list is empty and \<open>delay\<close>
  keeps its initial value \<^verbatim>\<open>(Uint64)-1\<close>, or the head is scheduled for the
  future).  \<open>Dispatch_Next\<close>: the head was detached and either rescheduled or
  appended to the worker's local freelist.
\<close>

datatype dispatch =
    Dispatch_Wait Uint64
  | Dispatch_Next SDL_TimerData "addr list"
  | Dispatch_Null_Call

definition SDL_TimerThread_dispatch :: "Uint64 \<Rightarrow> SDL_TimerData \<Rightarrow> addr list \<Rightarrow> dispatch" where
  "SDL_TimerThread_dispatch tick data local_freelist =
     (case timers data of
        [] \<Rightarrow> Dispatch_Wait (- 1)
      | current # rest \<Rightarrow>
          if tick < scheduled (heap data current)
          then Dispatch_Wait (scheduled (heap data current) - tick)
          else
            (let data = data\<lparr>timers := rest\<rparr>
             in case (if canceled (heap data current) \<noteq> 0 then Some 0
                      else invoke_callback (heap data current)) of
                  None \<Rightarrow> Dispatch_Null_Call
                | Some new_interval \<Rightarrow>
                    if new_interval > 0
                    then Dispatch_Next
                           (SDL_AddTimerInternal
                              (data\<lparr>heap := (heap data)
                                 (current := (heap data current)
                                    \<lparr>interval := new_interval, scheduled := tick + new_interval\<rparr>)\<rparr>)
                              current)
                           local_freelist
                    else Dispatch_Next
                           (data\<lparr>heap := (heap data)
                              (current := (heap data current)\<lparr>canceled := 1\<rparr>)\<rparr>)
                           (local_freelist @ [current])))"

subsection \<open>\<^verbatim>\<open>SDL_RemoveTimer\<close>\<close>

text \<open>The search loop: it unlinks the first entry with the given id, if any.\<close>

fun unlink_entry :: "SDL_TimerID \<Rightarrow> SDL_TimerMap list \<Rightarrow> SDL_TimerMap option \<times> SDL_TimerMap list" where
  "unlink_entry id0 [] = (None, [])"
| "unlink_entry id0 (entry # rest) =
     (if entry_timerID entry = id0 then (Some entry, rest)
      else (case unlink_entry id0 rest of (found, rest') \<Rightarrow> (found, entry # rest')))"

text \<open>
  The boolean result is \<open>Inr ()\<close> for \<^verbatim>\<open>true\<close>; \<^verbatim>\<open>SDL_InvalidParamError\<close> and
  \<^verbatim>\<open>SDL_SetError\<close> record an error and return \<^verbatim>\<open>false\<close>: \<open>Inl\<close> of the error.
\<close>

definition SDL_RemoveTimer :: "SDL_TimerID \<Rightarrow> SDL_TimerData \<Rightarrow> (error + unit) \<times> SDL_TimerData" where
  "SDL_RemoveTimer id0 data =
     (if id0 = 0 then (Inl (InvalidParam ''id''), data)
      else
        (case unlink_entry id0 (timermap data) of
           (None, tm) \<Rightarrow> (Inl (Error ''Timer not found''), data\<lparr>timermap := tm\<rparr>)
         | (Some entry, tm) \<Rightarrow>
             if canceled (heap data (entry_timer entry)) = 0
             then (Inr (),
                   data\<lparr>timermap := tm,
                        heap := (heap data)
                          (entry_timer entry := (heap data (entry_timer entry))\<lparr>canceled := 1\<rparr>)\<rparr>)
             else (Inl (Error ''Timer not found''), data\<lparr>timermap := tm\<rparr>)))"

subsection \<open>\<^verbatim>\<open>SDL_CreateTimer\<close>\<close>

text \<open>
  What the collaborators answer during one call: whether \<^verbatim>\<open>SDL_CheckInitTimers\<close>
  succeeds, the address \<^verbatim>\<open>SDL_malloc\<close> returns for a timer record (\<open>None\<close> is a
  null result), whether the allocation of the registry entry succeeds, the id
  from \<^verbatim>\<open>SDL_GetNextObjectID\<close> and the reading of \<^verbatim>\<open>SDL_GetTicksNS\<close>.
\<close>

record create_env =
  init_ok :: bool
  malloc_timer :: "addr option"
  malloc_entry :: bool
  next_object_id :: SDL_TimerID
  ticks_ns :: Uint64

definition SDL_CreateTimer ::
  "create_env \<Rightarrow> Uint64 \<Rightarrow> SDL_TimerCallback option \<Rightarrow> SDL_NSTimerCallback option \<Rightarrow> nat \<Rightarrow>
   SDL_TimerData \<Rightarrow> (error + SDL_TimerID) \<times> SDL_TimerData" where
  "SDL_CreateTimer env interval_ns cb_ms cb_ns ud data =
     (if cb_ms = None \<and> cb_ns = None then (Inl (InvalidParam ''callback''), data)
      else if \<not> init_ok env then (Inl InitFailed, data)
      else
        (case (case freelist data of
                 timer # rest \<Rightarrow>
                   Some (timer, snd (SDL_RemoveTimer (timerID (heap data timer))
                                       (data\<lparr>freelist := rest\<rparr>)))
               | [] \<Rightarrow>
                   (case malloc_timer env of
                      None \<Rightarrow> None
                    | Some timer \<Rightarrow> Some (timer, data))) of
           None \<Rightarrow> (Inl OutOfMemory, data)
         | Some (timer, data) \<Rightarrow>
             (let data = data\<lparr>heap := (heap data)
                           (timer := \<lparr>timerID = next_object_id env, callback_ms = cb_ms,
                                      callback_ns = cb_ns, userdata = ud, interval = interval_ns,
                                      scheduled = ticks_ns env + interval_ns, canceled = 0\<rparr>)\<rparr>
              in if \<not> malloc_entry env then (Inl OutOfMemory, data)
                 else (Inr (next_object_id env),
                       data\<lparr>timermap := \<lparr>entry_timerID = next_object_id env, entry_timer = timer\<rparr>
                                           # timermap data,
                            pending := timer # pending data,
                            sem := Suc (sem data)\<rparr>))))"

text \<open>The \<^verbatim>\<open>SDL_TimerID\<close> the C function hands back: 0 on every failure.\<close>

fun returned_id :: "error + SDL_TimerID \<Rightarrow> SDL_TimerID" where
  "returned_id (Inl e) = 0"
| "returned_id (Inr i) = i"

definition SDL_AddTimer ::
  "create_env \<Rightarrow> Uint32 \<Rightarrow> SDL_TimerCallback option \<Rightarrow> nat \<Rightarrow> SDL_TimerData \<Rightarrow>
   (error + SDL_TimerID) \<times> SDL_TimerData" where
  "SDL_AddTimer env interval_ms callback ud data =
     SDL_CreateTimer env (SDL_MS_TO_NS interval_ms) callback None ud data"

definition SDL_AddTimerNS ::
  "create_env \<Rightarrow> Uint64 \<Rightarrow> SDL_NSTimerCallback option \<Rightarrow> nat \<Rightarrow> SDL_TimerData \<Rightarrow>
   (error + SDL_TimerID) \<times> SDL_TimerData" where
  "SDL_AddTimerNS env interval_ns callback ud data =
     SDL_CreateTimer env interval_ns None callback ud data"

section \<open>Timer resolution (\<^verbatim>\<open>SDL_TimerResolutionChanged\<close>)\<close>

text \<open>
  Modelled from the spec: \<^verbatim>\<open>SDL_atoi\<close> is not part of the sources at hand; the
  spec says the hint's string value is parsed as a decimal integer.  The parse
  takes an optional sign and the longest prefix of decimal digits; a string
  with no digit gives 0.
\<close>

definition is_digit :: "char \<Rightarrow> bool" where
  "is_digit c = (48 \<le> (of_char c :: nat) \<and> (of_char c :: nat) \<le> 57)"

fun parse_digits :: "int \<Rightarrow> string \<Rightarrow> int" where
  "parse_digits acc [] = acc"
| "parse_digits acc (c # cs) =
     (if is_digit c then parse_digits (acc * 10 + (int (of_char c) - 48)) cs else acc)"

definition SDL_atoi :: "string \<Rightarrow> int" where
  "SDL_atoi s =
     (case s of
        [] \<Rightarrow> 0
      | c # cs \<Rightarrow>
          if c = CHR ''-'' then - parse_digits 0 cs
          else if c = CHR ''+'' then parse_digits 0 cs
          else parse_digits 0 s)"

text \<open>
  A C string argument is a nullable pointer: \<open>None\<close> is \<^verbatim>\<open>NULL\<close>, and a non-null
  pointer is its address together with the characters it points to.  The
  comparison \<^verbatim>\<open>oldValue != hint\<close> of the source compares the pointers.
\<close>

record cstring =
  ptr :: nat
  chars :: string

datatype os_call = timeEndPeriod int | timeBeginPeriod int

text \<open>
  \<open>timer_period\<close> is the function's static variable; \<open>os_calls\<close> collects the
  calls of the platform's \<^verbatim>\<open>timeEndPeriod\<close> and \<^verbatim>\<open>timeBeginPeriod\<close> in program
  order.  The flag says whether \<^verbatim>\<open>HAVE_TIME_BEGIN_PERIOD\<close> is defined; without
  it the body is empty.
\<close>

record resolution_state =
  timer_period :: int
  os_calls :: "os_call list"

definition SDL_SetSystemTimerResolutionMS :: "bool \<Rightarrow> int \<Rightarrow> resolution_state \<Rightarrow> resolution_state" where
  "SDL_SetSystemTimerResolutionMS have_time_begin_period period st =
     (if have_time_begin_period \<and> period \<noteq> timer_period st
      then (let st = (if timer_period st \<noteq> 0
                      then st\<lparr>os_calls := os_calls st @ [timeEndPeriod (timer_period st)]\<rparr>
                      else st);
                st = st\<lparr>timer_period := period\<rparr>
            in if timer_period st \<noteq> 0
               then st\<lparr>os_calls := os_calls st @ [timeBeginPeriod (timer_period st)]\<rparr>
               else st)
      else st)"

definition hint_period :: "cstring option \<Rightarrow> int" where
  "hint_period hint =
     (case hint of
        None \<Rightarrow> 1
      | Some h \<Rightarrow> if chars h \<noteq> [] then SDL_atoi (chars h) else 1)"

definition SDL_TimerResolutionChanged ::
  "bool \<Rightarrow> cstring option \<Rightarrow> cstring option \<Rightarrow> resolution_state \<Rightarrow> resolution_state" where
  "SDL_TimerResolutionChanged have_time_begin_period oldValue hint st =
     (let period = hint_period hint
      in if period \<noteq> 0 \<or> map_option ptr oldValue \<noteq> map_option ptr hint
         then SDL_SetSystemTimerResolutionMS have_time_begin_period period st
         else st)"

section \<open>The monotonic clock (\<^verbatim>\<open>SDL_InitTicks\<close>, \<^verbatim>\<open>SDL_GetTicksNS\<close>, \<^verbatim>\<open>SDL_GetTicks\<close>)\<close>

text \<open>
  Modelled from the spec: \<^verbatim>\<open>SDL_CalculateGCD\<close> is not part of the sources at
  hand; the spec says the scalers are reduced by the greatest common divisor of
  the unit per second and the counter's frequency.  The model is Euclid's
  algorithm on 32-bit values.
\<close>

function SDL_CalculateGCD :: "Uint32 \<Rightarrow> Uint32 \<Rightarrow> Uint32" where
  "SDL_CalculateGCD a b = (if b = 0 then a else SDL_CalculateGCD b (a mod b))"
  by pat_completeness auto
termination
  apply (relation "measure (\<lambda>(a, b). unat b)")
   apply simp
  apply (clarsimp simp: unat_mod_distrib unat_gt_0)
  done

declare SDL_CalculateGCD.simps [simp del]

record ticks_state =
  tick_start :: Uint64
  tick_numerator_ns :: Uint32
  tick_denominator_ns :: Uint32
  tick_numerator_ms :: Uint32
  tick_denominator_ms :: Uint32

text \<open>
  \<open>tick_freq\<close> and \<open>counter\<close> are what \<^verbatim>\<open>SDL_GetPerformanceFrequency\<close> and
  \<^verbatim>\<open>SDL_GetPerformanceCounter\<close> answer.  The registration of the hint callback
  belongs to the hint subsystem and leaves the clock's variables alone.
  \<^verbatim>\<open>SDL_assert\<close> compiles to nothing in a release build.
\<close>

definition SDL_InitTicks :: "Uint64 \<Rightarrow> Uint64 \<Rightarrow> ticks_state \<Rightarrow> ticks_state" where
  "SDL_InitTicks tick_freq counter st =
     (if tick_start st \<noteq> 0 then st
      else
        (let gcd_ns = SDL_CalculateGCD SDL_NS_PER_SECOND (ucast tick_freq);
             st = st\<lparr>tick_numerator_ns := SDL_NS_PER_SECOND div gcd_ns,
                     tick_denominator_ns := ucast (tick_freq div ucast gcd_ns)\<rparr>;
             gcd_ms = SDL_CalculateGCD SDL_MS_PER_SECOND (ucast tick_freq);
             st = st\<lparr>tick_numerator_ms := SDL_MS_PER_SECOND div gcd_ms,
                     tick_denominator_ms := ucast (tick_freq div ucast gcd_ms)\<rparr>;
             st = st\<lparr>tick_start := counter\<rparr>
         in if tick_start st = 0 then st\<lparr>tick_start := tick_start st - 1\<rparr> else st))"

text \<open>
  The two readers.  \<open>init_counter\<close> is the counter value \<^verbatim>\<open>SDL_InitTicks\<close> would
  sample if the reader has to initialise the clock first, \<open>counter\<close> is the value
  the reader samples itself.  A zero denominator is a division by zero in C:
  \<open>None\<close>.
\<close>

definition SDL_GetTicksNS ::
  "Uint64 \<Rightarrow> Uint64 \<Rightarrow> Uint64 \<Rightarrow> ticks_state \<Rightarrow> Uint64 option \<times> ticks_state" where
  "SDL_GetTicksNS tick_freq init_counter counter st =
     (let st = (if tick_start st = 0 then SDL_InitTicks tick_freq init_counter st else st);
          starting_value = counter - tick_start st;
          val = starting_value * ucast (tick_numerator_ns st)
      in (if tick_denominator_ns st = 0 then None
          else Some (val div ucast (tick_denominator_ns st)), st))"

definition SDL_GetTicks ::
  "Uint64 \<Rightarrow> Uint64 \<Rightarrow> Uint64 \<Rightarrow> ticks_state \<Rightarrow> Uint64 option \<times> ticks_state" where
  "SDL_GetTicks tick_freq init_counter counter st =
     (let st = (if tick_start st = 0 then SDL_InitTicks tick_freq init_counter st else st);
          starting_value = counter - tick_start st;
          val = starting_value * ucast (tick_numerator_ms st)
      in (if tick_denominator_ms st = 0 then None
          else Some (val div ucast (tick_denominator_ms st)), st))"

text \<open>The condition of the \<^verbatim>\<open>SDL_assert\<close> in \<^verbatim>\<open>SDL_GetTicksNS\<close>, for an initialised clock.\<close>

definition ticks_ns_assertion :: "Uint64 \<Rightarrow> ticks_state \<Rightarrow> bool" where
  "ticks_ns_assertion counter st =
     (let starting_value = counter - tick_start st;
          val = starting_value * ucast (tick_numerator_ns st)
      in val \<ge> starting_value)"

section \<open>Predicates on the step 1 log\<close>

text \<open>
  The guard of the step 1 loop as it holds at a sleep request, together with the
  bound that keeps the subtraction \<open>target_sleep_ns - max_overshoot_ns\<close> from
  wrapping.
\<close>

definition step_1_guard :: "Uint64 \<Rightarrow> step_1_sleep \<Rightarrow> bool" where
  "step_1_guard target_value s =
     (10 * SHORT_SLEEP_NS \<le> request s
      \<and> at_value s + target_sleep s + 10 * SHORT_SLEEP_NS < target_value
      \<and> max_overshoot s < target_sleep s)"

text \<open>
  The condition of the step 1 loop, read at a sleep request.
\<close>

definition loop_condition :: "Uint64 \<Rightarrow> step_1_sleep \<Rightarrow> bool" where
  "loop_condition target_value s =
     (10 * SHORT_SLEEP_NS \<le> request s
      \<and> at_value s + target_sleep s + 10 * SHORT_SLEEP_NS < target_value)"

text \<open>
  The running maximum of the overshoot, in the words of the spec.  A value that
  reaches or exceeds the target sleep is reset to 0.  After the sleep of the
  request \<open>a\<close> has ended at the reading \<open>now\<close>, the overshoot observed is the
  time slept beyond the request, and the running maximum is the larger of the old
  maximum and that overshoot, reset against the target sleep of \<open>a\<close>.
\<close>

definition reset_at :: "Uint64 \<Rightarrow> Uint64 \<Rightarrow> Uint64" where
  "reset_at target_sleep_ns m = (if m \<ge> target_sleep_ns then 0 else m)"

definition observed_max :: "step_1_sleep \<Rightarrow> Uint64 \<Rightarrow> Uint64" where
  "observed_max a now =
     reset_at (target_sleep a) (max (max_overshoot a) (now - at_value a - request a))"

text \<open>
  The target sleep for the next request: unchanged while the horizon check
  holds, and otherwise a tenth of the time left, divided by ten again while it
  crosses the guard band.
\<close>

definition next_target_sleep :: "Uint64 \<Rightarrow> step_1_sleep \<Rightarrow> Uint64 \<Rightarrow> Uint64" where
  "next_target_sleep target_value a now =
     (if now + target_sleep a + 10 * SHORT_SLEEP_NS > target_value
      then reduce_target_sleep target_value now ((target_value - now) div 10)
      else target_sleep a)"

text \<open>
  The request that follows the request \<open>a\<close> when its sleep has ended at \<open>now\<close>:
  the running maximum is reset once more against the new target sleep, and the
  request is the target sleep less the running maximum.
\<close>

definition next_sleep :: "Uint64 \<Rightarrow> step_1_sleep \<Rightarrow> Uint64 \<Rightarrow> step_1_sleep" where
  "next_sleep target_value a now =
     \<lparr>at_value = now,
      target_sleep = next_target_sleep target_value a now,
      max_overshoot = reset_at (next_target_sleep target_value a now) (observed_max a now),
      request = next_target_sleep target_value a now
                - reset_at (next_target_sleep target_value a now) (observed_max a now)\<rparr>"

text \<open>
  \<open>b\<close> is the request after \<open>a\<close>: the reading between them is before the deadline,
  the new target sleep is above a short sleep, and \<open>b\<close> is the request computed
  from \<open>a\<close> and that reading.
\<close>

definition follows :: "Uint64 \<Rightarrow> step_1_sleep \<Rightarrow> step_1_sleep \<Rightarrow> bool" where
  "follows target_value a b =
     (at_value b < target_value \<and> SHORT_SLEEP_NS < target_sleep b
      \<and> b = next_sleep target_value a (at_value b))"

text \<open>
  How step 1 ends after the requests \<open>ss\<close> on the readings \<open>clock\<close>, where \<open>m0\<close> is
  the running maximum before the first request.  The readings taken are those of
  the requests, in order, and one more unless the clock has run out.  The
  function returns when that reading has reached the deadline.  Otherwise step 2
  starts from that reading: either no request was made at all, or the next target
  sleep has dropped to a short sleep or below (the \<^verbatim>\<open>break\<close>), or the loop
  condition fails for the request that would follow.
\<close>

definition step_1_stop ::
  "Uint64 \<Rightarrow> Uint64 list \<Rightarrow> step_1_sleep list \<Rightarrow> Uint64 \<Rightarrow> step_1_exit \<Rightarrow> bool" where
  "step_1_stop target_value clock ss m0 ex =
     (case ex of
        S1_Returned now \<Rightarrow>
          ss \<noteq> [] \<and> target_value \<le> now
          \<and> take (Suc (length ss)) clock = map at_value ss @ [now]
      | S1_Exhausted \<Rightarrow> ss \<noteq> [] \<and> clock = map at_value ss
      | S1_Step2 c m rest \<Rightarrow>
          clock = map at_value ss @ c # rest \<and>
          (if ss = [] then m = m0
           else c < target_value \<and>
                (if target_sleep (next_sleep target_value (last ss) c) \<le> SHORT_SLEEP_NS
                 then m = observed_max (last ss) c
                 else \<not> loop_condition target_value (next_sleep target_value (last ss) c)
                      \<and> m = max_overshoot (next_sleep target_value (last ss) c))))"

text \<open>
  What holds of the last reading when a run ends for want of readings: it is
  below the deadline, or a short sleep after it is (in 64-bit arithmetic).
\<close>

definition starved :: "Uint64 \<Rightarrow> Uint64 \<Rightarrow> bool" where
  "starved target_value r = (r < target_value \<or> r + SHORT_SLEEP_NS < target_value)"

section \<open>Example states\<close>

definition no_timer :: SDL_Timer where
  "no_timer = \<lparr>timerID = 0, callback_ms = None, callback_ns = None, userdata = 0,
                interval = 0, scheduled = 0, canceled = 0\<rparr>"

definition empty_data :: SDL_TimerData where
  "empty_data = \<lparr>timermap = [], pending = [], freelist = [], sem = 0, active = 1,
                  timers = [], heap = (\<lambda>a. no_timer)\<rparr>"

text \<open>A periodic nanosecond timer whose callback returns the interval it is given.\<close>

definition at_deadline :: "SDL_TimerID \<Rightarrow> Uint64 \<Rightarrow> SDL_Timer" where
  "at_deadline i d = no_timer\<lparr>timerID := i, callback_ns := Some (\<lambda>u t n. n),
                                interval := 10, scheduled := d\<rparr>"

text \<open>
  Three registered timers at the addresses 1, 2, 3 with the deadlines 10, 20, 30
  in the sorted list, and an unlinked record at address 4 with the deadline 20.
\<close>

definition three_timers :: SDL_TimerData where
  "three_timers = empty_data\<lparr>timers := [1, 2, 3],
     timermap := [\<lparr>entry_timerID = 13, entry_timer = 3\<rparr>, \<lparr>entry_timerID = 12, entry_timer = 2\<rparr>,
                  \<lparr>entry_timerID = 11, entry_timer = 1\<rparr>],
     heap := (\<lambda>a. no_timer)(1 := at_deadline 11 10, 2 := at_deadline 12 20, 3 := at_deadline 13 30,
                               4 := at_deadline 14 20)\<rparr>"

text \<open>One millisecond timer whose callback returns 0.\<close>

definition one_shot :: SDL_TimerData where
  "one_shot = empty_data\<lparr>timers := [5],
     heap := (\<lambda>a. no_timer)(5 := no_timer\<lparr>timerID := 15, callback_ms := Some (\<lambda>u t n. 0),
                                            interval := 7000000, scheduled := 12\<rparr>)\<rparr>"

text \<open>One periodic millisecond timer whose callback returns the interval it is given.\<close>

definition ms_timer :: SDL_TimerData where
  "ms_timer = empty_data\<lparr>timers := [6],
     heap := (\<lambda>a. no_timer)(6 := no_timer\<lparr>timerID := 16, callback_ms := Some (\<lambda>u t n. n),
                                            interval := 7000000, scheduled := 12\<rparr>)\<rparr>"

definition willing_env :: create_env where
  "willing_env = \<lparr>init_ok = True, malloc_timer = Some 1, malloc_entry = True,
                   next_object_id = 7, ticks_ns = 100\<rparr>"

text \<open>The clock's static variables before \<^verbatim>\<open>SDL_InitTicks\<close> has run.\<close>

definition uninitialised :: ticks_state where
  "uninitialised = \<lparr>tick_start = 0, tick_numerator_ns = 0, tick_denominator_ns = 0,
                     tick_numerator_ms = 0, tick_denominator_ms = 0\<rparr>"

text \<open>
  The clock initialised on a counter of 14318180 Hz (the frequency of the HPET
  behind many performance counters) that reads 1 at initialisation.
\<close>

definition hpet_clock :: ticks_state where
  "hpet_clock = SDL_InitTicks 14318180 1 uninitialised"

section \<open>Properties of the precise delay\<close>

subsection \<open>Every return is at or after the deadline\<close>

lemma emit_Returned: "emit e r = (es, Returned fin) \<Longrightarrow> \<exists>es'. r = (es', Returned fin)"
  by (cases r) auto

lemma step_5_deadline:
  "step_5 target_value current_value ticks = (es, Returned fin) \<Longrightarrow>
     target_value \<le> fin \<and> fin \<in> set (current_value # ticks)"
proof (induction ticks arbitrary: current_value es)
  case Nil
  then show ?case by (auto split: if_splits)
next
  case (Cons now ticks)
  show ?case
  proof (cases "current_value < target_value")
    case True
    with Cons.prems obtain es' where "step_5 target_value now ticks = (es', Returned fin)"
      by (auto dest: emit_Returned)
    from Cons.IH [OF this] show ?thesis by auto
  next
    case False
    with Cons.prems show ?thesis by auto
  qed
qed

lemma step_4_deadline:
  "step_4 target_value current_value ticks = (es, Returned fin) \<Longrightarrow>
     target_value \<le> fin \<and> fin \<in> set (current_value # ticks)"
proof (induction ticks arbitrary: current_value es)
  case Nil
  then show ?case by (auto split: if_splits dest: step_5_deadline)
next
  case (Cons now ticks)
  show ?case
  proof (cases "current_value + SHORT_SLEEP_NS < target_value")
    case True
    with Cons.prems obtain es' where "step_4 target_value now ticks = (es', Returned fin)"
      by (auto dest: emit_Returned)
    from Cons.IH [OF this] show ?thesis by auto
  next
    case False
    with Cons.prems have "step_5 target_value current_value (now # ticks) = (es, Returned fin)"
      by simp
    from step_5_deadline [OF this] show ?thesis .
  qed
qed

lemma step_3_deadline:
  "step_3 target_value current_value ticks = (es, Returned fin) \<Longrightarrow>
     target_value \<le> fin \<and> fin \<in> set (current_value # ticks)"
proof (induction ticks arbitrary: current_value es)
  case Nil
  then show ?case by (auto split: if_splits dest: step_4_deadline)
next
  case (Cons now ticks)
  show ?case
  proof (cases "current_value + 2 * SHORT_SLEEP_NS < target_value")
    case True
    with Cons.prems obtain es' where
      r: "(if now \<ge> target_value then ([], Returned now) else step_3 target_value now ticks)
            = (es', Returned fin)"
      by (auto dest: emit_Returned)
    show ?thesis
    proof (cases "now \<ge> target_value")
      case True
      with r show ?thesis by auto
    next
      case False
      with r have "step_3 target_value now ticks = (es', Returned fin)" by simp
      from Cons.IH [OF this] show ?thesis by auto
    qed
  next
    case False
    with Cons.prems have "step_4 target_value current_value (now # ticks) = (es, Returned fin)"
      by simp
    from step_4_deadline [OF this] show ?thesis .
  qed
qed

lemma step_2_deadline:
  "step_2 target_value max_sleep_ns current_value ticks = (es, Returned fin) \<Longrightarrow>
     target_value \<le> fin \<and> fin \<in> set (current_value # ticks)"
proof (induction ticks arbitrary: current_value max_sleep_ns es)
  case Nil
  then show ?case by (auto split: if_splits dest: step_3_deadline)
next
  case (Cons now ticks)
  show ?case
  proof (cases "current_value + max_sleep_ns < target_value")
    case g: True
    let ?m = "if now - current_value > max_sleep_ns then now - current_value else max_sleep_ns"
    show ?thesis
    proof (cases "now \<ge> target_value")
      case True
      with g Cons.prems show ?thesis by auto
    next
      case False
      with g Cons.prems have
        "emit (SYS_DelayNS SHORT_SLEEP_NS) (step_2 target_value ?m now ticks) = (es, Returned fin)"
        by (simp add: Let_def)
      then obtain es' where "step_2 target_value ?m now ticks = (es', Returned fin)"
        by (blast dest: emit_Returned)
      from Cons.IH [OF this] show ?thesis by auto
    qed
  next
    case False
    with Cons.prems have "step_3 target_value current_value (now # ticks) = (es, Returned fin)"
      by simp
    from step_3_deadline [OF this] show ?thesis .
  qed
qed

lemma logged_exit: "logged s r = (ss, ex) \<Longrightarrow> \<exists>ss'. r = (ss', ex) \<and> ss = s # ss'"
  by (cases r) auto

lemma step_1_loop_exit:
  "step_1_loop target_value current_value target_sleep_ns max_overshoot_ns current_sleep_ns ticks
     = (ss, ex) \<Longrightarrow>
   (case ex of
      S1_Returned now \<Rightarrow> target_value \<le> now \<and> now \<in> set ticks
    | S1_Exhausted \<Rightarrow> True
    | S1_Step2 c m rest \<Rightarrow> set (c # rest) \<subseteq> set (current_value # ticks))"
proof (induction ticks arbitrary: current_value target_sleep_ns max_overshoot_ns current_sleep_ns ss)
  case Nil
  then show ?case by (auto split: if_splits)
next
  case (Cons now ticks)
  let ?g = "current_sleep_ns \<ge> 10 * SHORT_SLEEP_NS \<and>
         current_value + target_sleep_ns + 10 * SHORT_SLEEP_NS < target_value"
  show ?case
  proof (cases ?g)
    case False
    with Cons.prems show ?thesis by auto
  next
    case g: True
    let ?b = "step_1_body target_value current_value target_sleep_ns max_overshoot_ns current_sleep_ns now"
    from g Cons.prems obtain ss' where
      r: "(if now \<ge> target_value then ([], S1_Returned now)
           else (case ?b of Break c m \<Rightarrow> ([], S1_Step2 c m ticks)
                 | Next c t m s \<Rightarrow> step_1_loop target_value c t m s ticks)) = (ss', ex)"
      by (auto dest: logged_exit)
    show ?thesis
    proof (cases "now \<ge> target_value")
      case True
      with r show ?thesis by auto
    next
      case nr: False
      have bnow: "(\<exists>m. ?b = Break now m) \<or> (\<exists>t m s. ?b = Next now t m s)"
        by (simp add: step_1_body_def Let_def)
      then show ?thesis
      proof
        assume "\<exists>m. ?b = Break now m"
        then obtain m where "?b = Break now m" ..
        with r nr show ?thesis by auto
      next
        assume "\<exists>t m s. ?b = Next now t m s"
        then obtain t m s where b: "?b = Next now t m s" by blast
        with r nr have "step_1_loop target_value now t m s ticks = (ss', ex)" by simp
        from Cons.IH [OF this] show ?thesis by (auto split: step_1_exit.splits)
      qed
    qed
  qed
qed

lemma SDL_DelayPrecise_deadline:
  assumes "SDL_DelayPrecise ns (t0 # ticks) = (es, Returned fin)"
  shows "t0 + ns \<le> fin \<and> fin \<in> set (t0 # ticks)"
proof (cases "ns \<le> 2 * SHORT_SLEEP_NS")
  case True
  with assms have "step_4 (t0 + ns) t0 ticks = (es, Returned fin)"
    by (simp add: SDL_DelayPrecise_def)
  from step_4_deadline [OF this] show ?thesis .
next
  case False
  obtain ss ex where s1: "step_1 ns (t0 + ns) t0 ticks = (ss, ex)"
    by (cases "step_1 ns (t0 + ns) t0 ticks")
  with False assms have a: "after_step_1 (t0 + ns) (ss, ex) = (es, Returned fin)"
    by (simp add: SDL_DelayPrecise_def)
  have ex: "(case ex of
      S1_Returned now \<Rightarrow> t0 + ns \<le> now \<and> now \<in> set ticks
    | S1_Exhausted \<Rightarrow> True
    | S1_Step2 c m rest \<Rightarrow> set (c # rest) \<subseteq> set (t0 # ticks))"
  proof (cases "ns div 10 \<ge> 10 * SHORT_SLEEP_NS")
    case True
    with s1 have "step_1_loop (t0 + ns) t0 (ns div 10) 0 (ns div 10 - SHORT_SLEEP_NS) ticks = (ss, ex)"
      by (simp add: step_1_def Let_def)
    from step_1_loop_exit [OF this] show ?thesis .
  next
    case False
    with s1 show ?thesis by (auto simp: step_1_def Let_def)
  qed
  show ?thesis
  proof (cases ex)
    case (S1_Returned now)
    with a ex show ?thesis by auto
  next
    case S1_Exhausted
    with a show ?thesis by simp
  next
    case (S1_Step2 c m rest)
    with a obtain es' where "step_2_entry (t0 + ns) c m rest = (es', Returned fin)"
      by (auto split: prod.splits)
    then have "step_2 (t0 + ns) (if m < SHORT_SLEEP_NS then SHORT_SLEEP_NS + m else SHORT_SLEEP_NS) c rest
                 = (es', Returned fin)"
      by (simp add: step_2_entry_def Let_def)
    from step_2_deadline [OF this] ex S1_Step2 show ?thesis by auto
  qed
qed

text \<open>
  A run ends for want of readings only if its last reading is below the
  deadline, or below it by more than a short sleep in wrapped arithmetic.  So
  the function returns as soon as the clock has reached the deadline.
\<close>

lemma emit_Exhausted: "emit e r = (es, Ticks_Exhausted) \<Longrightarrow> \<exists>es'. r = (es', Ticks_Exhausted)"
  by (cases r) auto

lemma step_5_exhausted:
  "step_5 target_value current_value ticks = (es, Ticks_Exhausted) \<Longrightarrow>
     starved target_value (last (current_value # ticks))"
proof (induction ticks arbitrary: current_value es)
  case Nil
  then show ?case by (auto simp: starved_def split: if_splits)
next
  case (Cons now ticks)
  show ?case
  proof (cases "current_value < target_value")
    case True
    with Cons.prems obtain es' where "step_5 target_value now ticks = (es', Ticks_Exhausted)"
      by (auto dest: emit_Exhausted)
    from Cons.IH [OF this] show ?thesis by simp
  next
    case False
    with Cons.prems show ?thesis by simp
  qed
qed

lemma step_4_exhausted:
  "step_4 target_value current_value ticks = (es, Ticks_Exhausted) \<Longrightarrow>
     starved target_value (last (current_value # ticks))"
proof (induction ticks arbitrary: current_value es)
  case Nil
  then show ?case by (auto simp: starved_def split: if_splits dest: step_5_exhausted)
next
  case (Cons now ticks)
  show ?case
  proof (cases "current_value + SHORT_SLEEP_NS < target_value")
    case True
    with Cons.prems obtain es' where "step_4 target_value now ticks = (es', Ticks_Exhausted)"
      by (auto dest: emit_Exhausted)
    from Cons.IH [OF this] show ?thesis by simp
  next
    case False
    with Cons.prems have "step_5 target_value current_value (now # ticks) = (es, Ticks_Exhausted)"
      by simp
    from step_5_exhausted [OF this] show ?thesis .
  qed
qed

lemma step_3_exhausted:
  "step_3 target_value current_value ticks = (es, Ticks_Exhausted) \<Longrightarrow>
   current_value < target_value \<Longrightarrow>
     starved target_value (last (current_value # ticks))"
proof (induction ticks arbitrary: current_value es)
  case Nil
  then show ?case by (auto simp: starved_def split: if_splits dest: step_4_exhausted)
next
  case (Cons now ticks)
  show ?case
  proof (cases "current_value + 2 * SHORT_SLEEP_NS < target_value")
    case g: True
    show ?thesis
    proof (cases "now \<ge> target_value")
      case True
      with g Cons.prems show ?thesis by simp
    next
      case False
      with g Cons.prems obtain es' where "step_3 target_value now ticks = (es', Ticks_Exhausted)"
        by (auto dest: emit_Exhausted)
      from Cons.IH [OF this] False show ?thesis by simp
    qed
  next
    case False
    with Cons.prems have "step_4 target_value current_value (now # ticks) = (es, Ticks_Exhausted)"
      by simp
    from step_4_exhausted [OF this] show ?thesis .
  qed
qed

lemma step_2_exhausted:
  "step_2 target_value max_sleep_ns current_value ticks = (es, Ticks_Exhausted) \<Longrightarrow>
   current_value < target_value \<Longrightarrow>
     starved target_value (last (current_value # ticks))"
proof (induction ticks arbitrary: current_value max_sleep_ns es)
  case Nil
  then show ?case by (auto simp: starved_def split: if_splits dest: step_3_exhausted)
next
  case (Cons now ticks)
  show ?case
  proof (cases "current_value + max_sleep_ns < target_value")
    case g: True
    let ?m = "if now - current_value > max_sleep_ns then now - current_value else max_sleep_ns"
    show ?thesis
    proof (cases "now \<ge> target_value")
      case True
      with g Cons.prems show ?thesis by simp
    next
      case False
      with g Cons.prems have
        "emit (SYS_DelayNS SHORT_SLEEP_NS) (step_2 target_value ?m now ticks) = (es, Ticks_Exhausted)"
        by (simp add: Let_def)
      then obtain es' where "step_2 target_value ?m now ticks = (es', Ticks_Exhausted)"
        by (blast dest: emit_Exhausted)
      from Cons.IH [OF this] False show ?thesis by simp
    qed
  next
    case False
    with Cons.prems have "step_3 target_value current_value (now # ticks) = (es, Ticks_Exhausted)"
      by simp
    from step_3_exhausted [OF this Cons.prems(2)] show ?thesis .
  qed
qed

lemma step_1_loop_below:
  "step_1_loop target_value current_value target_sleep_ns max_overshoot_ns current_sleep_ns ticks
     = (ss, ex) \<Longrightarrow>
   current_value < target_value \<Longrightarrow>
   (case ex of
      S1_Returned now \<Rightarrow> True
    | S1_Exhausted \<Rightarrow> last (current_value # ticks) < target_value
    | S1_Step2 c m rest \<Rightarrow> c < target_value \<and> last (c # rest) = last (current_value # ticks))"
proof (induction ticks arbitrary: current_value target_sleep_ns max_overshoot_ns current_sleep_ns ss)
  case Nil
  then show ?case by (auto split: if_splits)
next
  case (Cons now ticks)
  let ?g = "current_sleep_ns \<ge> 10 * SHORT_SLEEP_NS \<and>
         current_value + target_sleep_ns + 10 * SHORT_SLEEP_NS < target_value"
  show ?case
  proof (cases ?g)
    case False
    with Cons.prems show ?thesis by auto
  next
    case g: True
    let ?b = "step_1_body target_value current_value target_sleep_ns max_overshoot_ns current_sleep_ns now"
    from g Cons.prems(1) obtain ss' where
      r: "(if now \<ge> target_value then ([], S1_Returned now)
           else (case ?b of Break c m \<Rightarrow> ([], S1_Step2 c m ticks)
                 | Next c t m s \<Rightarrow> step_1_loop target_value c t m s ticks)) = (ss', ex)"
      by (auto dest: logged_exit)
    show ?thesis
    proof (cases "now \<ge> target_value")
      case True
      with r show ?thesis by auto
    next
      case nr: False
      have bnow: "(\<exists>m. ?b = Break now m) \<or> (\<exists>t m s. ?b = Next now t m s)"
        by (simp add: step_1_body_def Let_def)
      then show ?thesis
      proof
        assume "\<exists>m. ?b = Break now m"
        then obtain m where "?b = Break now m" ..
        with r nr show ?thesis by auto
      next
        assume "\<exists>t m s. ?b = Next now t m s"
        then obtain t m s where b: "?b = Next now t m s" by blast
        with r nr have "step_1_loop target_value now t m s ticks = (ss', ex)" by simp
        moreover from nr have "now < target_value" by simp
        ultimately show ?thesis using Cons.IH by (auto split: step_1_exit.splits)
      qed
    qed
  qed
qed

lemma SDL_DelayPrecise_exhausted:
  assumes "SDL_DelayPrecise ns (t0 # ticks) = (es, Ticks_Exhausted)"
    and "unat t0 + unat ns < 2 ^ 64"
  shows "starved (t0 + ns) (last (t0 # ticks))"
proof (cases "ns \<le> 2 * SHORT_SLEEP_NS")
  case True
  with assms have "step_4 (t0 + ns) t0 ticks = (es, Ticks_Exhausted)"
    by (simp add: SDL_DelayPrecise_def)
  from step_4_exhausted [OF this] show ?thesis .
next
  case False
  then have "ns \<noteq> 0" by auto
  then have "0 < unat ns" by (simp add: unat_gt_0)
  moreover from assms(2) have "unat (t0 + ns) = unat t0 + unat ns"
    by (simp add: unat_add_lem [THEN iffD1])
  ultimately have below: "t0 < t0 + ns" by (simp add: word_less_nat_alt)
  obtain ss ex where s1: "step_1 ns (t0 + ns) t0 ticks = (ss, ex)"
    by (cases "step_1 ns (t0 + ns) t0 ticks")
  with False assms have a: "after_step_1 (t0 + ns) (ss, ex) = (es, Ticks_Exhausted)"
    by (simp add: SDL_DelayPrecise_def)
  have ex: "(case ex of
      S1_Returned now \<Rightarrow> True
    | S1_Exhausted \<Rightarrow> last (t0 # ticks) < t0 + ns
    | S1_Step2 c m rest \<Rightarrow> c < t0 + ns \<and> last (c # rest) = last (t0 # ticks))"
  proof (cases "ns div 10 \<ge> 10 * SHORT_SLEEP_NS")
    case True
    with s1 have "step_1_loop (t0 + ns) t0 (ns div 10) 0 (ns div 10 - SHORT_SLEEP_NS) ticks = (ss, ex)"
      by (simp add: step_1_def Let_def)
    from step_1_loop_below [OF this below] show ?thesis .
  next
    case False
    with s1 below show ?thesis by (auto simp: step_1_def Let_def)
  qed
  show ?thesis
  proof (cases ex)
    case (S1_Returned now)
    with a show ?thesis by simp
  next
    case S1_Exhausted
    with ex show ?thesis by (simp add: starved_def)
  next
    case (S1_Step2 c m rest)
    with a obtain es' where "step_2_entry (t0 + ns) c m rest = (es', Ticks_Exhausted)"
      by (auto split: prod.splits)
    then have "step_2 (t0 + ns) (if m < SHORT_SLEEP_NS then SHORT_SLEEP_NS + m else SHORT_SLEEP_NS) c rest
                 = (es', Ticks_Exhausted)"
      by (simp add: step_2_entry_def Let_def)
    from step_2_exhausted [OF this] ex S1_Step2 show ?thesis by simp
  qed
qed

lemma SDL_DelayPrecise_returns:
  assumes "unat t0 + unat ns < 2 ^ 64"
    and "t0 + ns \<le> last (t0 # ticks)"
    and "unat (last (t0 # ticks)) + unat SHORT_SLEEP_NS < 2 ^ 64"
  shows "\<exists>es fin. SDL_DelayPrecise ns (t0 # ticks) = (es, Returned fin)"
proof -
  let ?l = "last (t0 # ticks)"
  obtain es out where run: "SDL_DelayPrecise ns (t0 # ticks) = (es, out)"
    by (cases "SDL_DelayPrecise ns (t0 # ticks)")
  have "out \<noteq> Ticks_Exhausted"
  proof
    assume "out = Ticks_Exhausted"
    with run have "starved (t0 + ns) ?l"
      using SDL_DelayPrecise_exhausted [OF _ assms(1)] by simp
    moreover from assms(3) have "unat (?l + SHORT_SLEEP_NS) = unat ?l + unat SHORT_SLEEP_NS"
      by (simp add: unat_add_lem [THEN iffD1])
    then have "?l \<le> ?l + SHORT_SLEEP_NS" by (simp add: word_le_nat_alt)
    ultimately have "?l < t0 + ns" by (auto simp: starved_def)
    with assms(2) show False by simp
  qed
  with run show ?thesis by (cases out) auto
qed

text \<open>
  C1 (as amended).  Whenever \<open>SDL_DelayPrecise ns\<close> returns, the last clock reading
  it has taken is one of the readings of the clock and lies at least \<open>ns\<close>
  nanoseconds after the reading taken at entry, provided the deadline
  \<open>entry + ns\<close> is representable in 64 bits.  Nothing is assumed about the sleep
  primitive or the order of the readings; with a non-decreasing clock every later
  reading is at least as large.
\<close>

theorem delay_precise_elapsed:
  assumes "SDL_DelayPrecise ns (t0 # ticks) = (es, Returned fin)"
    and "unat t0 + unat ns < 2 ^ 64"
  shows "unat t0 + unat ns \<le> unat fin \<and> fin \<in> set (t0 # ticks)"
proof -
  from SDL_DelayPrecise_deadline [OF assms(1)]
  have le: "t0 + ns \<le> fin" and mem: "fin \<in> set (t0 # ticks)" by auto
  from assms(2) have "unat (t0 + ns) = unat t0 + unat ns"
    by (simp add: unat_add_lem [THEN iffD1])
  with le have "unat t0 + unat ns \<le> unat fin"
    by (simp add: word_le_nat_alt)
  with mem show ?thesis by simp
qed

theorem delay_precise_elapsed_witness:
  "SDL_DelayPrecise 5000000 [100, 1100100, 2200100, 3300100, 4400100, 4900100, 5000100]
     = ([SYS_DelayNS 1000000, SYS_DelayNS 1000000, SYS_DelayNS 1000000, SYS_DelayNS 1000000,
         CPUPause, CPUPause], Returned 5000100)
   \<and> unat (100 :: Uint64) + unat (5000000 :: Uint64) \<le> unat (5000100 :: Uint64)"
proof -
  have run: "SDL_DelayPrecise 5000000 (100 # [1100100, 2200100, 3300100, 4400100, 4900100, 5000100])
     = ([SYS_DelayNS 1000000, SYS_DelayNS 1000000, SYS_DelayNS 1000000, SYS_DelayNS 1000000,
         CPUPause, CPUPause], Returned 5000100)"
    by code_simp
  have nowrap: "unat (100 :: Uint64) + unat (5000000 :: Uint64) < 2 ^ 64"
    by simp
  from delay_precise_elapsed [OF run nowrap] run show ?thesis
    by simp
qed

text \<open>
  C1 as stated fails where the deadline wraps around: with the clock at 5 ns a
  request for \<open>2^64 - 1\<close> nanoseconds computes the deadline 4, and the function
  returns at once, without any sleep.
\<close>

theorem delay_precise_elapsed_counterexample:
  "SDL_DelayPrecise 18446744073709551615 [5] = ([], Returned 5)
   \<and> \<not> unat (5 :: Uint64) + unat (18446744073709551615 :: Uint64) \<le> unat (5 :: Uint64)"
  by (simp add: SDL_DelayPrecise_def SHORT_SLEEP_NS_def SDL_NS_PER_MS_def step_1_def
      step_2_entry_def sleeps_of_def)

subsection \<open>A zero delay\<close>

text \<open>
  C10 (as amended).  \<open>SDL_DelayPrecise 0\<close> returns with the entry reading, having
  requested no sleep and no CPU pause, whenever the entry reading plus
  \<open>SHORT_SLEEP_NS\<close> does not wrap around 64 bits.
\<close>

theorem delay_precise_zero:
  assumes "unat t0 + unat SHORT_SLEEP_NS < 2 ^ 64"
  shows "SDL_DelayPrecise 0 (t0 # ticks) = ([], Returned t0)"
proof -
  have "unat (t0 + SHORT_SLEEP_NS) = unat t0 + unat SHORT_SLEEP_NS"
    using assms by (simp add: unat_add_lem [THEN iffD1])
  then have "\<not> t0 + SHORT_SLEEP_NS < t0"
    by (simp add: word_less_nat_alt)
  then show ?thesis
    by (cases ticks) (simp_all add: SDL_DelayPrecise_def)
qed

theorem delay_precise_zero_witness:
  "unat (5 :: Uint64) + unat SHORT_SLEEP_NS < 2 ^ 64
   \<and> SDL_DelayPrecise 0 [5, 6, 7] = ([], Returned 5)"
proof -
  have h: "unat (5 :: Uint64) + unat SHORT_SLEEP_NS < 2 ^ 64"
    by (simp add: SHORT_SLEEP_NS_def SDL_NS_PER_MS_def)
  from delay_precise_zero [OF h, of "[6, 7]"] h show ?thesis
    by simp
qed

text \<open>
  C10 as stated fails for an entry reading in the last millisecond before the
  clock wraps: there \<open>current_value + SHORT_SLEEP_NS\<close> wraps below the deadline and
  step 4 calls \<open>SDL_SYS_DelayNS(0)\<close>.
\<close>

theorem delay_precise_zero_counterexample:
  "SDL_DelayPrecise 0 [18446744073709551615] = ([SYS_DelayNS 0], Ticks_Exhausted)"
  by (simp add: SDL_DelayPrecise_def SHORT_SLEEP_NS_def SDL_NS_PER_MS_def)

subsection \<open>The sleep requests of step 1\<close>

lemma word_pos_above: "(a :: Uint64) < b \<Longrightarrow> 0 < b"
  by (cases "b = 0") (simp_all add: word_gt_0)

lemma step_1_body_Next:
  assumes "step_1_body target_value current_value target_sleep_ns max_overshoot_ns current_sleep_ns now
             = Next c t m s"
    and "SHORT_SLEEP_NS < target_sleep_ns"
  shows "c = now \<and> s = t - m \<and> m < t \<and> SHORT_SLEEP_NS < t
         \<and> (m = 0 \<or> m = max max_overshoot_ns (now - current_value - current_sleep_ns))"
proof -
  define ov where "ov = now - current_value - current_sleep_ns"
  define max1 where "max1 = (if ov > max_overshoot_ns then ov else max_overshoot_ns)"
  define max2 where "max2 = (if max1 \<ge> target_sleep_ns then 0 else max1)"
  define ts where "ts = reduce_target_sleep target_value now ((target_value - now) div 10)"
  define max3 where "max3 = (if max2 \<ge> ts then 0 else max2)"
  have body: "step_1_body target_value current_value target_sleep_ns max_overshoot_ns current_sleep_ns now
     = (if now + target_sleep_ns + 10 * SHORT_SLEEP_NS > target_value
        then (if ts \<le> SHORT_SLEEP_NS then Break now max2 else Next now ts max3 (ts - max3))
        else Next now target_sleep_ns max2 (target_sleep_ns - max2))"
    unfolding step_1_body_def Let_def ov_def max1_def max2_def ts_def max3_def ..
  have m1: "max1 = max max_overshoot_ns ov"
    by (auto simp: max1_def max_def)
  have m2: "max2 = 0 \<or> max2 = max1" by (simp add: max2_def)
  have m3: "max3 = 0 \<or> max3 = max2" by (simp add: max3_def)
  have pos: "0 < target_sleep_ns" using assms(2) by (rule word_pos_above)
  have b2: "max2 < target_sleep_ns" using pos by (simp add: max2_def not_le)
  show ?thesis
  proof (cases "now + target_sleep_ns + 10 * SHORT_SLEEP_NS > target_value")
    case False
    with assms(1) body have "c = now" "t = target_sleep_ns" "m = max2" "s = target_sleep_ns - max2"
      by auto
    with b2 assms(2) m1 m2 show ?thesis by (auto simp: ov_def)
  next
    case True
    with assms(1) body have nb: "\<not> ts \<le> SHORT_SLEEP_NS"
      by (auto split: if_splits)
    with True assms(1) body have eq: "c = now" "t = ts" "m = max3" "s = ts - max3"
      by auto
    from nb have ts: "SHORT_SLEEP_NS < ts" by (simp add: not_le)
    then have "0 < ts" by (rule word_pos_above)
    then have "max3 < ts" by (simp add: max3_def not_le)
    with eq ts m1 m2 m3 show ?thesis by (auto simp: ov_def)
  qed
qed

lemma step_1_loop_hd:
  "step_1_loop target_value current_value target_sleep_ns max_overshoot_ns current_sleep_ns ticks
     = (ss, ex) \<Longrightarrow> ss \<noteq> [] \<Longrightarrow>
   hd ss = \<lparr>at_value = current_value, target_sleep = target_sleep_ns,
             max_overshoot = max_overshoot_ns, request = current_sleep_ns\<rparr>"
  by (cases ticks) (auto split: if_splits dest: logged_exit)

lemma step_1_loop_log:
  assumes "step_1_loop target_value current_value target_sleep_ns max_overshoot_ns current_sleep_ns ticks
             = (ss, ex)"
    and "SHORT_SLEEP_NS < target_sleep_ns" and "max_overshoot_ns < target_sleep_ns"
  shows "(\<forall>s \<in> set ss. step_1_guard target_value s)
       \<and> (\<forall>s \<in> set (tl ss). request s = target_sleep s - max_overshoot s)"
  using assms
proof (induction ticks arbitrary: current_value target_sleep_ns max_overshoot_ns current_sleep_ns ss)
  case Nil
  then show ?case by (auto simp: step_1_guard_def split: if_splits)
next
  case (Cons now ticks)
  let ?g = "current_sleep_ns \<ge> 10 * SHORT_SLEEP_NS \<and>
         current_value + target_sleep_ns + 10 * SHORT_SLEEP_NS < target_value"
  let ?snap = "\<lparr>at_value = current_value, target_sleep = target_sleep_ns,
                max_overshoot = max_overshoot_ns, request = current_sleep_ns\<rparr>"
  show ?case
  proof (cases ?g)
    case False
    with Cons.prems(1) show ?thesis by auto
  next
    case g: True
    then have snap: "step_1_guard target_value ?snap"
      using Cons.prems(3) by (simp add: step_1_guard_def)
    let ?b = "step_1_body target_value current_value target_sleep_ns max_overshoot_ns current_sleep_ns now"
    from g Cons.prems(1) obtain ss' where
      r: "(if now \<ge> target_value then ([], S1_Returned now)
           else (case ?b of Break c m \<Rightarrow> ([], S1_Step2 c m ticks)
                 | Next c t m s \<Rightarrow> step_1_loop target_value c t m s ticks)) = (ss', ex)"
      and ss: "ss = ?snap # ss'"
      by (auto dest: logged_exit)
    show ?thesis
    proof (cases "now \<ge> target_value")
      case True
      with r have "ss' = []" by simp
      with ss snap show ?thesis by simp
    next
      case nr: False
      show ?thesis
      proof (cases ?b)
        case (Break c m)
        with r nr have "ss' = []" by simp
        with ss snap show ?thesis by simp
      next
        case (Next c t m s)
        with r nr have loop: "step_1_loop target_value c t m s ticks = (ss', ex)" by simp
        from step_1_body_Next [OF Next Cons.prems(2)]
        have s: "s = t - m" and m: "m < t" and t: "SHORT_SLEEP_NS < t"
          by auto
        from Cons.IH [OF loop t m]
        have all': "\<forall>x \<in> set ss'. step_1_guard target_value x"
          and tl': "\<forall>x \<in> set (tl ss'). request x = target_sleep x - max_overshoot x"
          by auto
        have tl: "\<forall>x \<in> set ss'. request x = target_sleep x - max_overshoot x"
        proof (cases ss')
          case Nil
          then show ?thesis by simp
        next
          case (Cons y ys)
          with step_1_loop_hd [OF loop] tl' s show ?thesis by auto
        qed
        from ss snap all' tl show ?thesis by simp
      qed
    qed
  qed
qed

lemma step_1_loop_empty:
  "(fst (step_1_loop target_value current_value target_sleep_ns max_overshoot_ns current_sleep_ns ticks) = [])
     = (\<not> (current_sleep_ns \<ge> 10 * SHORT_SLEEP_NS \<and>
             current_value + target_sleep_ns + 10 * SHORT_SLEEP_NS < target_value))"
proof (cases ticks)
  case Nil
  then show ?thesis by simp
next
  case (Cons now rest)
  let ?r = "if now \<ge> target_value then ([], S1_Returned now)
           else (case step_1_body target_value current_value target_sleep_ns max_overshoot_ns
                        current_sleep_ns now of
                   Break c m \<Rightarrow> ([], S1_Step2 c m rest)
                 | Next c t m s \<Rightarrow> step_1_loop target_value c t m s rest)"
  have "fst (logged x ?r) \<noteq> []" for x
    by (cases ?r) simp
  with Cons show ?thesis by simp
qed

lemma short_bounds: "SHORT_SLEEP_NS < 10 * SHORT_SLEEP_NS"
  by (simp add: SHORT_SLEEP_NS_def SDL_NS_PER_MS_def)

text \<open>
  The body of the loop computes exactly the request that follows in the words
  of the spec, and the loop makes that request exactly when its condition holds.
\<close>

lemma step_1_body_exact:
  assumes "SHORT_SLEEP_NS < target_sleep_ns"
    and a_def: "a = \<lparr>at_value = current_value, target_sleep = target_sleep_ns,
                  max_overshoot = max_overshoot_ns, request = current_sleep_ns\<rparr>"
  shows "step_1_body target_value current_value target_sleep_ns max_overshoot_ns current_sleep_ns now
     = (if target_sleep (next_sleep target_value a now) \<le> SHORT_SLEEP_NS
        then Break now (observed_max a now)
        else Next now (target_sleep (next_sleep target_value a now))
               (max_overshoot (next_sleep target_value a now))
               (request (next_sleep target_value a now)))"
proof -
  define ov where "ov = now - current_value - current_sleep_ns"
  define max1 where "max1 = (if ov > max_overshoot_ns then ov else max_overshoot_ns)"
  define max2 where "max2 = (if max1 \<ge> target_sleep_ns then 0 else max1)"
  define ts where "ts = reduce_target_sleep target_value now ((target_value - now) div 10)"
  define max3 where "max3 = (if max2 \<ge> ts then 0 else max2)"
  have body: "step_1_body target_value current_value target_sleep_ns max_overshoot_ns current_sleep_ns now
     = (if now + target_sleep_ns + 10 * SHORT_SLEEP_NS > target_value
        then (if ts \<le> SHORT_SLEEP_NS then Break now max2 else Next now ts max3 (ts - max3))
        else Next now target_sleep_ns max2 (target_sleep_ns - max2))"
    unfolding step_1_body_def Let_def ov_def max1_def max2_def ts_def max3_def ..
  have m1: "max1 = max max_overshoot_ns ov"
    by (auto simp: max1_def max_def)
  have m2: "max2 = observed_max a now"
    by (simp add: observed_max_def a_def reset_at_def max2_def m1 ov_def)
  have m22: "reset_at target_sleep_ns max2 = max2"
    by (simp add: max2_def reset_at_def)
  show ?thesis
  proof (cases "now + target_sleep_ns + 10 * SHORT_SLEEP_NS > target_value")
    case True
    then have t: "next_target_sleep target_value a now = ts"
      by (simp add: next_target_sleep_def a_def ts_def)
    have "max3 = reset_at ts max2" by (simp add: max3_def reset_at_def)
    with True t body m2 show ?thesis
      by (simp add: next_sleep_def)
  next
    case False
    then have t: "next_target_sleep target_value a now = target_sleep_ns"
      by (simp add: next_target_sleep_def a_def)
    from assms(1) have "\<not> target_sleep_ns \<le> SHORT_SLEEP_NS" by simp
    with False t body m2 m22 show ?thesis
      by (simp add: next_sleep_def)
  qed
qed

lemma next_sleep_at: "at_value (next_sleep target_value a now) = now"
  by (simp add: next_sleep_def)

lemma step_1_loop_exact:
  assumes "step_1_loop target_value current_value target_sleep_ns max_overshoot_ns current_sleep_ns ticks
             = (ss, ex)"
    and "SHORT_SLEEP_NS < target_sleep_ns"
  shows "successively (follows target_value) ss
       \<and> step_1_stop target_value (current_value # ticks) ss max_overshoot_ns ex"
  using assms
proof (induction ticks arbitrary: current_value target_sleep_ns max_overshoot_ns current_sleep_ns ss)
  case Nil
  then show ?case by (auto simp: step_1_stop_def split: if_splits)
next
  case (Cons now ticks)
  let ?g = "current_sleep_ns \<ge> 10 * SHORT_SLEEP_NS \<and>
         current_value + target_sleep_ns + 10 * SHORT_SLEEP_NS < target_value"
  let ?snap = "\<lparr>at_value = current_value, target_sleep = target_sleep_ns,
                max_overshoot = max_overshoot_ns, request = current_sleep_ns\<rparr>"
  show ?case
  proof (cases ?g)
    case False
    with Cons.prems(1) show ?thesis by (auto simp: step_1_stop_def)
  next
    case g: True
    define b where "b = next_sleep target_value ?snap now"
    have b_at: "at_value b = now" by (simp add: b_def next_sleep_at)
    let ?body = "step_1_body target_value current_value target_sleep_ns max_overshoot_ns current_sleep_ns now"
    have body: "?body = (if target_sleep b \<le> SHORT_SLEEP_NS
        then Break now (observed_max ?snap now)
        else Next now (target_sleep b) (max_overshoot b) (request b))"
      unfolding b_def by (rule step_1_body_exact [OF Cons.prems(2) refl])
    from g Cons.prems(1) obtain ss' where
      r: "(if now \<ge> target_value then ([], S1_Returned now)
           else (case ?body of Break c m \<Rightarrow> ([], S1_Step2 c m ticks)
                 | Next c t m s \<Rightarrow> step_1_loop target_value c t m s ticks)) = (ss', ex)"
      and ss: "ss = ?snap # ss'"
      by (auto dest: logged_exit)
    show ?thesis
    proof (cases "now \<ge> target_value")
      case True
      with r have "ss' = []" "ex = S1_Returned now" by simp_all
      with ss True show ?thesis by (simp add: step_1_stop_def)
    next
      case nr: False
      then have below: "now < target_value" by simp
      show ?thesis
      proof (cases "target_sleep b \<le> SHORT_SLEEP_NS")
        case True
        with r nr body have "ss' = []" "ex = S1_Step2 now (observed_max ?snap now) ticks"
          by simp_all
        with ss below True show ?thesis by (simp add: step_1_stop_def b_def)
      next
        case nb: False
        then have tb: "SHORT_SLEEP_NS < target_sleep b" by simp
        from r nr body nb have loop:
          "step_1_loop target_value now (target_sleep b) (max_overshoot b) (request b) ticks = (ss', ex)"
          by simp
        from Cons.IH [OF loop tb]
        have succ': "successively (follows target_value) ss'"
          and stop': "step_1_stop target_value (now # ticks) ss' (max_overshoot b) ex"
          by auto
        have b_eq: "\<lparr>at_value = now, target_sleep = target_sleep b,
                     max_overshoot = max_overshoot b, request = request b\<rparr> = b"
          using b_at by simp
        have fol: "follows target_value ?snap b"
          using below tb b_at by (simp add: follows_def b_def)
        show ?thesis
        proof (cases ss')
          case Nil
          from loop Nil have nc: "\<not> loop_condition target_value b"
            using step_1_loop_empty [of target_value now "target_sleep b" "max_overshoot b"
                "request b" ticks]
            by (simp add: loop_condition_def b_at)
          from stop' Nil ss below nc nb show ?thesis
            by (cases ex) (auto simp: step_1_stop_def b_def)
        next
          case (Cons y ys)
          with step_1_loop_hd [OF loop] b_eq have y: "y = b" by simp
          with fol succ' Cons ss have "successively (follows target_value) ss" by simp
          moreover from stop' Cons ss
          have "step_1_stop target_value (current_value # now # ticks) ss max_overshoot_ns ex"
            by (cases ex) (auto simp: step_1_stop_def)
          ultimately show ?thesis ..
        qed
      qed
    qed
  qed
qed

text \<open>
  C8 (as amended).  For a request above two short sleeps, step 1 makes exactly
  these sleep requests.  The first request is \<open>target_sleep_ns - SHORT_SLEEP_NS\<close>
  with \<open>target_sleep_ns = ns / 10\<close> and \<open>max_overshoot_ns = 0\<close>, and it is made
  exactly when \<open>target_sleep_ns\<close> and that first request are at least ten short
  sleeps and the guard band lies before the deadline.  Every later request is the
  one computed from the request before it and the reading taken after that sleep:
  \<open>max_overshoot_ns\<close> is the running maximum of the overshoot observed, reset to
  0 exactly when it reaches or exceeds the target sleep, and the request is
  \<open>target_sleep_ns - max_overshoot_ns\<close>.  At every request the loop's condition
  holds as the source writes it (\<open>current_sleep_ns\<close> is at least ten short sleeps,
  and \<open>current_value + target_sleep_ns\<close> plus ten short sleeps is below the
  deadline), and \<open>max_overshoot_ns\<close> is below \<open>target_sleep_ns\<close>.  The loop ends
  only when a reading has reached the deadline (the function returns), when the
  next target sleep is a short sleep or less, when the loop's condition fails for
  the request that would follow, or when the clock has no reading left.  The
  requests are the first sleep requests of \<open>SDL_DelayPrecise\<close>, in order.
\<close>

theorem step_1_requests:
  assumes "2 * SHORT_SLEEP_NS < ns" and "step_1 ns (t0 + ns) t0 ticks = (ss, ex)"
  shows "(ss \<noteq> [] \<longrightarrow> hd ss = \<lparr>at_value = t0, target_sleep = ns div 10, max_overshoot = 0,
                                request = ns div 10 - SHORT_SLEEP_NS\<rparr>)
       \<and> (ss = []) = (\<not> (10 * SHORT_SLEEP_NS \<le> ns div 10
                           \<and> 10 * SHORT_SLEEP_NS \<le> ns div 10 - SHORT_SLEEP_NS
                           \<and> t0 + ns div 10 + 10 * SHORT_SLEEP_NS < t0 + ns))
       \<and> (\<forall>s \<in> set ss. step_1_guard (t0 + ns) s)
       \<and> (\<forall>s \<in> set (tl ss). request s = target_sleep s - max_overshoot s)
       \<and> successively (follows (t0 + ns)) ss
       \<and> step_1_stop (t0 + ns) (t0 # ticks) ss 0 ex
       \<and> (\<exists>es. fst (SDL_DelayPrecise ns (t0 # ticks)) = map (\<lambda>s. SYS_DelayNS (request s)) ss @ es)"
proof -
  have log: "(ss \<noteq> [] \<longrightarrow> hd ss = \<lparr>at_value = t0, target_sleep = ns div 10, max_overshoot = 0,
                                request = ns div 10 - SHORT_SLEEP_NS\<rparr>)
       \<and> (ss = []) = (\<not> (10 * SHORT_SLEEP_NS \<le> ns div 10
                           \<and> 10 * SHORT_SLEEP_NS \<le> ns div 10 - SHORT_SLEEP_NS
                           \<and> t0 + ns div 10 + 10 * SHORT_SLEEP_NS < t0 + ns))
       \<and> (\<forall>s \<in> set ss. step_1_guard (t0 + ns) s)
       \<and> (\<forall>s \<in> set (tl ss). request s = target_sleep s - max_overshoot s)
       \<and> successively (follows (t0 + ns)) ss
       \<and> step_1_stop (t0 + ns) (t0 # ticks) ss 0 ex"
  proof (cases "ns div 10 \<ge> 10 * SHORT_SLEEP_NS")
    case True
    with assms(2) have loop:
      "step_1_loop (t0 + ns) t0 (ns div 10) 0 (ns div 10 - SHORT_SLEEP_NS) ticks = (ss, ex)"
      by (simp add: step_1_def Let_def)
    from True short_bounds have t: "SHORT_SLEEP_NS < ns div 10" by simp
    then have pos: "0 < ns div 10" by (rule word_pos_above)
    have "ss \<noteq> [] \<longrightarrow> hd ss = \<lparr>at_value = t0, target_sleep = ns div 10, max_overshoot = 0,
                                request = ns div 10 - SHORT_SLEEP_NS\<rparr>"
      using step_1_loop_hd [OF loop] by simp
    moreover have "(ss = []) = (\<not> (10 * SHORT_SLEEP_NS \<le> ns div 10
                           \<and> 10 * SHORT_SLEEP_NS \<le> ns div 10 - SHORT_SLEEP_NS
                           \<and> t0 + ns div 10 + 10 * SHORT_SLEEP_NS < t0 + ns))"
      using loop True
        step_1_loop_empty [of "t0 + ns" t0 "ns div 10" 0 "ns div 10 - SHORT_SLEEP_NS" ticks]
      by simp
    ultimately show ?thesis
      using step_1_loop_log [OF loop t pos] step_1_loop_exact [OF loop t] by blast
  next
    case False
    with assms(2) have "ss = []" "ex = S1_Step2 t0 0 ticks" by (simp_all add: step_1_def Let_def)
    with False show ?thesis by (simp add: step_1_stop_def)
  qed
  from assms have run: "SDL_DelayPrecise ns (t0 # ticks) = after_step_1 (t0 + ns) (ss, ex)"
    by (simp add: SDL_DelayPrecise_def Let_def not_le [symmetric])
  have "\<exists>es. fst (after_step_1 (t0 + ns) (ss, ex)) = sleeps_of ss @ es"
    by (cases ex) (auto split: prod.splits)
  with run log show ?thesis by (simp add: sleeps_of_def)
qed

theorem step_1_requests_witness:
  "2 * SHORT_SLEEP_NS < 200000000
   \<and> step_1 200000000 (0 + 200000000) 0
         [19500000, 39000000, 60000000, 80000000, 100000000, 120000000, 140000000, 160000000,
          180000000, 190000000, 195000000]
       = ([\<lparr>at_value = 0, target_sleep = 20000000, max_overshoot = 0, request = 19000000\<rparr>,
           \<lparr>at_value = 19500000, target_sleep = 20000000, max_overshoot = 500000, request = 19500000\<rparr>,
           \<lparr>at_value = 39000000, target_sleep = 20000000, max_overshoot = 500000, request = 19500000\<rparr>,
           \<lparr>at_value = 60000000, target_sleep = 20000000, max_overshoot = 1500000, request = 18500000\<rparr>,
           \<lparr>at_value = 80000000, target_sleep = 20000000, max_overshoot = 1500000, request = 18500000\<rparr>,
           \<lparr>at_value = 100000000, target_sleep = 20000000, max_overshoot = 1500000, request = 18500000\<rparr>,
           \<lparr>at_value = 120000000, target_sleep = 20000000, max_overshoot = 1500000, request = 18500000\<rparr>,
           \<lparr>at_value = 140000000, target_sleep = 20000000, max_overshoot = 1500000, request = 18500000\<rparr>,
           \<lparr>at_value = 160000000, target_sleep = 20000000, max_overshoot = 1500000, request = 18500000\<rparr>],
          S1_Step2 180000000 1500000 [190000000, 195000000])
   \<and> successively (follows 200000000)
        [\<lparr>at_value = 0, target_sleep = 20000000, max_overshoot = 0, request = 19000000\<rparr>,
         \<lparr>at_value = 19500000, target_sleep = 20000000, max_overshoot = 500000, request = 19500000\<rparr>,
         \<lparr>at_value = 39000000, target_sleep = 20000000, max_overshoot = 500000, request = 19500000\<rparr>,
         \<lparr>at_value = 60000000, target_sleep = 20000000, max_overshoot = 1500000, request = 18500000\<rparr>,
         \<lparr>at_value = 80000000, target_sleep = 20000000, max_overshoot = 1500000, request = 18500000\<rparr>,
         \<lparr>at_value = 100000000, target_sleep = 20000000, max_overshoot = 1500000, request = 18500000\<rparr>,
         \<lparr>at_value = 120000000, target_sleep = 20000000, max_overshoot = 1500000, request = 18500000\<rparr>,
         \<lparr>at_value = 140000000, target_sleep = 20000000, max_overshoot = 1500000, request = 18500000\<rparr>,
         \<lparr>at_value = 160000000, target_sleep = 20000000, max_overshoot = 1500000, request = 18500000\<rparr>]
   \<and> next_sleep 200000000
         \<lparr>at_value = 160000000, target_sleep = 20000000, max_overshoot = 1500000, request = 18500000\<rparr>
         180000000
       = \<lparr>at_value = 180000000, target_sleep = 2000000, max_overshoot = 1500000, request = 500000\<rparr>
   \<and> \<not> loop_condition 200000000
         \<lparr>at_value = 180000000, target_sleep = 2000000, max_overshoot = 1500000, request = 500000\<rparr>
   \<and> step_1 200000000 (0 + 200000000) 0 [45000000, 66000000]
       = ([\<lparr>at_value = 0, target_sleep = 20000000, max_overshoot = 0, request = 19000000\<rparr>,
         \<lparr>at_value = 45000000, target_sleep = 20000000, max_overshoot = 0, request = 20000000\<rparr>,
         \<lparr>at_value = 66000000, target_sleep = 20000000, max_overshoot = 1000000, request = 19000000\<rparr>],
          S1_Exhausted)
   \<and> successively (follows 200000000)
        [\<lparr>at_value = 0, target_sleep = 20000000, max_overshoot = 0, request = 19000000\<rparr>,
         \<lparr>at_value = 45000000, target_sleep = 20000000, max_overshoot = 0, request = 20000000\<rparr>,
         \<lparr>at_value = 66000000, target_sleep = 20000000, max_overshoot = 1000000, request = 19000000\<rparr>]
   \<and> (\<exists>es. fst (SDL_DelayPrecise 200000000
                    [0, 19500000, 39000000, 60000000, 80000000, 100000000, 120000000, 140000000,
                     160000000, 180000000, 190000000, 195000000])
             = [SYS_DelayNS 19000000, SYS_DelayNS 19500000, SYS_DelayNS 19500000,
                SYS_DelayNS 18500000, SYS_DelayNS 18500000, SYS_DelayNS 18500000,
                SYS_DelayNS 18500000, SYS_DelayNS 18500000, SYS_DelayNS 18500000] @ es)"
proof -
  have h: "2 * SHORT_SLEEP_NS < 200000000"
    by (simp add: SHORT_SLEEP_NS_def SDL_NS_PER_MS_def)
  have run: "step_1 200000000 (0 + 200000000) 0
         [19500000, 39000000, 60000000, 80000000, 100000000, 120000000, 140000000, 160000000,
          180000000, 190000000, 195000000]
       = ([\<lparr>at_value = 0, target_sleep = 20000000, max_overshoot = 0, request = 19000000\<rparr>,
           \<lparr>at_value = 19500000, target_sleep = 20000000, max_overshoot = 500000, request = 19500000\<rparr>,
           \<lparr>at_value = 39000000, target_sleep = 20000000, max_overshoot = 500000, request = 19500000\<rparr>,
           \<lparr>at_value = 60000000, target_sleep = 20000000, max_overshoot = 1500000, request = 18500000\<rparr>,
           \<lparr>at_value = 80000000, target_sleep = 20000000, max_overshoot = 1500000, request = 18500000\<rparr>,
           \<lparr>at_value = 100000000, target_sleep = 20000000, max_overshoot = 1500000, request = 18500000\<rparr>,
           \<lparr>at_value = 120000000, target_sleep = 20000000, max_overshoot = 1500000, request = 18500000\<rparr>,
           \<lparr>at_value = 140000000, target_sleep = 20000000, max_overshoot = 1500000, request = 18500000\<rparr>,
           \<lparr>at_value = 160000000, target_sleep = 20000000, max_overshoot = 1500000, request = 18500000\<rparr>],
          S1_Step2 180000000 1500000 [190000000, 195000000])"
    by code_simp
  have nxt: "next_sleep 200000000
         \<lparr>at_value = 160000000, target_sleep = 20000000, max_overshoot = 1500000, request = 18500000\<rparr>
         180000000
       = \<lparr>at_value = 180000000, target_sleep = 2000000, max_overshoot = 1500000, request = 500000\<rparr>"
    by code_simp
  have nc: "\<not> loop_condition 200000000
         \<lparr>at_value = 180000000, target_sleep = 2000000, max_overshoot = 1500000, request = 500000\<rparr>"
    by (simp add: loop_condition_def SHORT_SLEEP_NS_def SDL_NS_PER_MS_def)
  have run2: "step_1 200000000 (0 + 200000000) 0 [45000000, 66000000]
       = ([\<lparr>at_value = 0, target_sleep = 20000000, max_overshoot = 0, request = 19000000\<rparr>,
         \<lparr>at_value = 45000000, target_sleep = 20000000, max_overshoot = 0, request = 20000000\<rparr>,
         \<lparr>at_value = 66000000, target_sleep = 20000000, max_overshoot = 1000000, request = 19000000\<rparr>],
          S1_Exhausted)"
    by code_simp
  from step_1_requests [OF h run] step_1_requests [OF h run2] h run run2 nxt nc show ?thesis
    by simp
qed

text \<open>
  C8 as stated fails at the first iteration: for 200 ms the target sleep is
  20 ms and no overshoot has been observed, yet the first request is 19 ms.
\<close>

theorem step_1_requests_counterexample:
  "hd (fst (step_1 200000000 (0 + 200000000) 0 [19500000]))
     = \<lparr>at_value = 0, target_sleep = 20000000, max_overshoot = 0, request = 19000000\<rparr>
   \<and> hd (fst (SDL_DelayPrecise 200000000 [0, 19500000])) = SYS_DelayNS 19000000
   \<and> (19000000 :: Uint64) \<noteq> 20000000 - 0"
  by code_simp

section \<open>Properties of the timer lists and the registry\<close>

subsection \<open>The sorted list\<close>

lemma timers_insert_split:
  assumes "sorted (map (\<lambda>a. scheduled (h a)) xs)"
  shows "\<exists>before after. xs = before @ after
           \<and> timers_insert h timer xs = before @ timer # after
           \<and> (\<forall>a \<in> set before. scheduled (h a) \<le> scheduled (h timer))
           \<and> (\<forall>a \<in> set after. scheduled (h timer) < scheduled (h a))"
  using assms
proof (induction xs)
  case Nil
  then show ?case by simp
next
  case (Cons x xs)
  show ?case
  proof (cases "scheduled (h x) > scheduled (h timer)")
    case True
    with Cons.prems have "\<forall>a \<in> set (x # xs). scheduled (h timer) < scheduled (h a)"
      by auto
    with True show ?thesis
      by (intro exI [of _ "[]"] exI [of _ "x # xs"]) simp
  next
    case False
    from Cons.prems have "sorted (map (\<lambda>a. scheduled (h a)) xs)" by simp
    from Cons.IH [OF this] obtain before after where
      ba: "xs = before @ after" "timers_insert h timer xs = before @ timer # after"
        "\<forall>a \<in> set before. scheduled (h a) \<le> scheduled (h timer)"
        "\<forall>a \<in> set after. scheduled (h timer) < scheduled (h a)"
      by blast
    with False show ?thesis
      by (intro exI [of _ "x # before"] exI [of _ after]) auto
  qed
qed

lemma timers_insert_sorted:
  assumes "sorted (map (\<lambda>a. scheduled (h a)) xs)"
  shows "sorted (map (\<lambda>a. scheduled (h a)) (timers_insert h timer xs))"
proof -
  from timers_insert_split [OF assms, of timer] obtain before after where
    ba: "xs = before @ after" "timers_insert h timer xs = before @ timer # after"
      "\<forall>a \<in> set before. scheduled (h a) \<le> scheduled (h timer)"
      "\<forall>a \<in> set after. scheduled (h timer) < scheduled (h a)"
    by blast
  from assms ba(1) have "sorted (map (\<lambda>a. scheduled (h a)) before)"
    and "sorted (map (\<lambda>a. scheduled (h a)) after)"
    and "\<forall>a \<in> set before. \<forall>b \<in> set after. scheduled (h a) \<le> scheduled (h b)"
    by (auto simp: sorted_append)
  with ba show ?thesis
    by (auto simp: sorted_append less_imp_le)
qed

lemma timers_insert_set: "set (timers_insert h timer xs) = insert timer (set xs)"
  by (induction xs) auto

lemma timers_insert_distinct:
  "distinct xs \<Longrightarrow> timer \<notin> set xs \<Longrightarrow> distinct (timers_insert h timer xs)"
  by (induction xs) (auto simp: timers_insert_set)

lemma maintenance_fold:
  "timers_sorted data \<Longrightarrow> timers_sorted (foldl SDL_AddTimerInternal data ps)"
proof (induction ps arbitrary: data)
  case Nil
  then show ?case by simp
next
  case (Cons p ps)
  from Cons.prems have "timers_sorted (SDL_AddTimerInternal data p)"
    using timers_insert_sorted [of "heap data" "timers data" p]
    by (simp add: timers_sorted_def SDL_AddTimerInternal_def)
  from Cons.IH [OF this] show ?case by simp
qed

lemma maintenance_sorted:
  assumes "timers_sorted data"
  shows "timers_sorted (SDL_TimerThread_maintenance data local_freelist)"
proof -
  from assms have "timers_sorted (data\<lparr>pending := [], freelist := local_freelist @ freelist data\<rparr>)"
    by (simp add: timers_sorted_def)
  from maintenance_fold [OF this] show ?thesis
    by (simp add: SDL_TimerThread_maintenance_def Let_def)
qed

lemma sorted_heap_update:
  assumes "sorted (map (\<lambda>a. scheduled (h a)) xs)" and "x \<notin> set xs"
  shows "sorted (map (\<lambda>a. scheduled ((h(x := v)) a)) xs)"
proof -
  from assms(2) have "map (\<lambda>a. scheduled ((h(x := v)) a)) xs = map (\<lambda>a. scheduled (h a)) xs"
    by (induction xs) auto
  with assms(1) show ?thesis by (simp only:)
qed

lemma dispatch_unfold:
  assumes "timers data = current # rest"
    and "\<not> tick < scheduled (heap data current)"
  shows "SDL_TimerThread_dispatch tick data local_freelist =
     (case (if canceled (heap data current) \<noteq> 0 then Some 0 else invoke_callback (heap data current)) of
        None \<Rightarrow> Dispatch_Null_Call
      | Some returned \<Rightarrow>
          if 0 < returned
          then Dispatch_Next
                 (SDL_AddTimerInternal
                    (data\<lparr>timers := rest,
                          heap := (heap data)(current := (heap data current)
                                     \<lparr>interval := returned, scheduled := tick + returned\<rparr>)\<rparr>)
                    current)
                 local_freelist
          else Dispatch_Next
                 (data\<lparr>timers := rest,
                       heap := (heap data)(current := (heap data current)\<lparr>canceled := 1\<rparr>)\<rparr>)
                 (local_freelist @ [current]))"
proof (cases "canceled (heap data current) \<noteq> 0")
  case True
  with assms show ?thesis by (simp add: SDL_TimerThread_dispatch_def Let_def)
next
  case False
  with assms show ?thesis
    by (cases "invoke_callback (heap data current)")
       (simp_all add: SDL_TimerThread_dispatch_def Let_def)
qed

lemma dispatch_sorted:
  assumes "timers_sorted data" and "distinct (timers data)"
    and "SDL_TimerThread_dispatch tick data local_freelist = Dispatch_Next data' local_freelist'"
  shows "timers_sorted data' \<and> distinct (timers data')"
proof (cases "timers data")
  case Nil
  with assms(3) show ?thesis by (simp add: SDL_TimerThread_dispatch_def)
next
  case (Cons current rest)
  with assms(1,2) have rest: "sorted (map (\<lambda>a. scheduled (heap data a)) rest)"
    and notin: "current \<notin> set rest" and d: "distinct rest"
    by (auto simp: timers_sorted_def)
  let ?r = "if canceled (heap data current) \<noteq> 0 then Some 0 else invoke_callback (heap data current)"
  from assms(3) Cons have nf: "\<not> tick < scheduled (heap data current)"
    by (auto simp: SDL_TimerThread_dispatch_def)
  note u = dispatch_unfold [OF Cons nf, of local_freelist]
  from assms(3) u obtain returned where r: "?r = Some returned"
    by (cases ?r) auto
  show ?thesis
  proof (cases "0 < returned")
    case True
    let ?h = "(heap data)(current := (heap data current)\<lparr>interval := returned, scheduled := tick + returned\<rparr>)"
    from assms(3) u r True
    have d': "data' = SDL_AddTimerInternal (data\<lparr>timers := rest, heap := ?h\<rparr>) current"
      by simp
    have "sorted (map (\<lambda>a. scheduled (?h a)) rest)"
      by (rule sorted_heap_update [OF rest notin])
    from timers_insert_sorted [OF this, of current] timers_insert_distinct [OF d notin, of ?h]
    show ?thesis
      by (simp add: d' timers_sorted_def SDL_AddTimerInternal_def del: fun_upd_apply)
  next
    case False
    let ?h = "(heap data)(current := (heap data current)\<lparr>canceled := 1\<rparr>)"
    from assms(3) u r False
    have d': "data' = data\<lparr>timers := rest, heap := ?h\<rparr>"
      by simp
    have "sorted (map (\<lambda>a. scheduled (?h a)) rest)"
      by (rule sorted_heap_update [OF rest notin])
    with d show ?thesis
      by (simp add: d' timers_sorted_def del: fun_upd_apply)
  qed
qed

text \<open>
  The producers leave the sorted list alone: \<open>SDL_RemoveTimer\<close> writes the
  \<open>canceled\<close> flag only, and \<open>SDL_CreateTimer\<close> writes a record that is taken
  from the freelist or freshly allocated, so it keeps the list sorted as long as
  no record is on the freelist and in \<open>timers\<close> at once.
\<close>

lemma remove_timer_scheduled:
  "scheduled (heap (snd (SDL_RemoveTimer id0 data)) a) = scheduled (heap data a)
   \<and> timers (snd (SDL_RemoveTimer id0 data)) = timers data"
  by (auto simp: SDL_RemoveTimer_def split: prod.splits option.splits)

lemma remove_timer_sorted:
  "timers_sorted data \<Longrightarrow> timers_sorted (snd (SDL_RemoveTimer id0 data))"
  by (simp add: timers_sorted_def remove_timer_scheduled)

lemma create_timer_sorted:
  assumes "timers_sorted data"
    and "set (freelist data) \<inter> set (timers data) = {}"
    and "\<And>a. malloc_timer env = Some a \<Longrightarrow> a \<notin> set (timers data)"
  shows "timers_sorted (snd (SDL_CreateTimer env interval_ns cb_ms cb_ns ud data))"
proof -
  have upd: "timers_sorted (d\<lparr>heap := (heap d)(x := v)\<rparr>)"
    if "timers_sorted d" "x \<notin> set (timers d)" for d :: SDL_TimerData and x v
    using sorted_heap_update [of "heap d" "timers d" x v] that
    by (simp add: timers_sorted_def del: fun_upd_apply)
  have more: "timers_sorted (d\<lparr>timermap := tm, pending := p, sem := n\<rparr>)"
    if "timers_sorted d" for d :: SDL_TimerData and tm p n
    using that by (simp add: timers_sorted_def)
  show ?thesis
  proof (cases "freelist data")
    case Nil
    show ?thesis
    proof (cases "malloc_timer env")
      case None
      with Nil assms(1) show ?thesis by (simp add: SDL_CreateTimer_def)
    next
      case (Some a)
      from assms(3) [OF Some] have "a \<notin> set (timers data)" .
      from upd [OF assms(1) this] more Nil Some assms(1) show ?thesis
        by (simp add: SDL_CreateTimer_def Let_def del: fun_upd_apply)
    qed
  next
    case (Cons a rest)
    let ?d = "snd (SDL_RemoveTimer (timerID (heap data a)) (data\<lparr>freelist := rest\<rparr>))"
    from assms(1) have "timers_sorted (data\<lparr>freelist := rest\<rparr>)"
      by (simp add: timers_sorted_def)
    then have s: "timers_sorted ?d" by (rule remove_timer_sorted)
    from Cons assms(2) have "a \<notin> set (timers ?d)"
      by (auto simp: remove_timer_scheduled)
    from upd [OF s this] more Cons assms(1) show ?thesis
      by (simp add: SDL_CreateTimer_def Let_def del: fun_upd_apply)
  qed
qed

text \<open>
  C3.  For every state whose list \<open>timers\<close> is sorted by non-decreasing
  \<open>scheduled\<close> and every record, \<open>SDL_AddTimerInternal\<close> links the record in after
  all entries whose \<open>scheduled\<close> is less than or equal to its own and before all
  entries with a greater one, changes nothing else, and leaves the list sorted;
  an entry with an equal deadline that was inserted earlier therefore stays in
  front.  The worker's maintenance pass and every iteration of its dispatch loop
  keep the list sorted as well (and free of duplicates, which the dispatch needs
  because it rewrites the detached record).
\<close>

theorem timers_sorted_fifo:
  assumes "timers_sorted data"
  shows "(\<exists>before after. timers data = before @ after
            \<and> timers (SDL_AddTimerInternal data timer) = before @ timer # after
            \<and> (\<forall>a \<in> set before. scheduled (heap data a) \<le> scheduled (heap data timer))
            \<and> (\<forall>a \<in> set after. scheduled (heap data timer) < scheduled (heap data a)))
       \<and> heap (SDL_AddTimerInternal data timer) = heap data
       \<and> timers_sorted (SDL_AddTimerInternal data timer)
       \<and> timers_sorted (SDL_TimerThread_maintenance data local_freelist)
       \<and> (distinct (timers data) \<longrightarrow>
            (case SDL_TimerThread_dispatch tick data local_freelist of
               Dispatch_Next data' local_freelist' \<Rightarrow> timers_sorted data' \<and> distinct (timers data')
             | Dispatch_Wait delay \<Rightarrow> True
             | Dispatch_Null_Call \<Rightarrow> True))"
proof -
  from assms have s: "sorted (map (\<lambda>a. scheduled (heap data a)) (timers data))"
    by (simp add: timers_sorted_def)
  from timers_insert_split [OF s, of timer] obtain before after where
    ba: "timers data = before @ after"
      "timers_insert (heap data) timer (timers data) = before @ timer # after"
      "\<forall>a \<in> set before. scheduled (heap data a) \<le> scheduled (heap data timer)"
      "\<forall>a \<in> set after. scheduled (heap data timer) < scheduled (heap data a)"
    by blast
  then have split: "\<exists>before after. timers data = before @ after
            \<and> timers (SDL_AddTimerInternal data timer) = before @ timer # after
            \<and> (\<forall>a \<in> set before. scheduled (heap data a) \<le> scheduled (heap data timer))
            \<and> (\<forall>a \<in> set after. scheduled (heap data timer) < scheduled (heap data a))"
    by (intro exI [of _ before] exI [of _ after]) (simp add: SDL_AddTimerInternal_def)
  have ins: "timers_sorted (SDL_AddTimerInternal data timer)"
    using timers_insert_sorted [OF s, of timer]
    by (simp add: timers_sorted_def SDL_AddTimerInternal_def)
  have h: "heap (SDL_AddTimerInternal data timer) = heap data"
    by (simp add: SDL_AddTimerInternal_def)
  have disp: "case SDL_TimerThread_dispatch tick data local_freelist of
               Dispatch_Next data' local_freelist' \<Rightarrow> timers_sorted data' \<and> distinct (timers data')
             | Dispatch_Wait delay \<Rightarrow> True
             | Dispatch_Null_Call \<Rightarrow> True" if "distinct (timers data)"
    using dispatch_sorted [OF assms that, of tick local_freelist]
    by (cases "SDL_TimerThread_dispatch tick data local_freelist") auto
  from split h ins maintenance_sorted [OF assms, of local_freelist] disp show ?thesis
    by blast
qed

theorem timers_sorted_fifo_witness:
  "timers_sorted three_timers
   \<and> timers (SDL_AddTimerInternal three_timers 4) = [1, 2, 4, 3]
   \<and> timers_sorted (SDL_AddTimerInternal three_timers 4)
   \<and> timers (SDL_TimerThread_maintenance (three_timers\<lparr>pending := [4]\<rparr>) []) = [1, 2, 4, 3]
   \<and> timers_sorted (SDL_TimerThread_maintenance three_timers [])
   \<and> distinct (timers three_timers)
   \<and> (case SDL_TimerThread_dispatch 15 three_timers [] of
         Dispatch_Next data' local_freelist' \<Rightarrow> timers_sorted data' \<and> distinct (timers data')
       | Dispatch_Wait delay \<Rightarrow> True
       | Dispatch_Null_Call \<Rightarrow> True)"
proof -
  have s: "timers_sorted three_timers"
    by (simp add: timers_sorted_def three_timers_def empty_data_def at_deadline_def no_timer_def)
  have t: "timers (SDL_AddTimerInternal three_timers 4) = [1, 2, 4, 3]"
    by (simp add: SDL_AddTimerInternal_def three_timers_def empty_data_def at_deadline_def no_timer_def)
  have m: "timers (SDL_TimerThread_maintenance (three_timers\<lparr>pending := [4]\<rparr>) []) = [1, 2, 4, 3]"
    by (simp add: SDL_TimerThread_maintenance_def SDL_AddTimerInternal_def three_timers_def
        empty_data_def at_deadline_def no_timer_def)
  have d: "distinct (timers three_timers)"
    by (simp add: three_timers_def empty_data_def)
  from timers_sorted_fifo [OF s, of 4 "[]" 15] s t m d show ?thesis
    by blast
qed

subsection \<open>Removing a timer\<close>

lemma unlink_entry_find:
  "fst (unlink_entry id0 tm) = find (\<lambda>e. entry_timerID e = id0) tm"
  by (induction tm) (auto split: prod.splits)

text \<open>
  C2.  \<open>SDL_RemoveTimer\<close> succeeds if and only if the registry has an entry
  with the given id (the first such entry is the one found) whose record was not
  canceled before the call and is canceled after it.  For the id 0 it fails with
  the invalid-parameter error and returns the state unchanged.
\<close>

theorem remove_timer_result:
  "(fst (SDL_RemoveTimer id0 data) = Inr ()) =
     (\<exists>entry. find (\<lambda>e. entry_timerID e = id0) (timermap data) = Some entry
        \<and> canceled (heap data (entry_timer entry)) = 0
        \<and> canceled (heap (snd (SDL_RemoveTimer id0 data)) (entry_timer entry)) \<noteq> 0)
   \<and> SDL_RemoveTimer 0 data = (Inl (InvalidParam ''id''), data)"
proof -
  have zero: "SDL_RemoveTimer 0 data = (Inl (InvalidParam ''id''), data)"
    by (simp add: SDL_RemoveTimer_def)
  obtain found tm where u: "unlink_entry id0 (timermap data) = (found, tm)"
    by (cases "unlink_entry id0 (timermap data)")
  with unlink_entry_find [of id0 "timermap data"]
  have f: "find (\<lambda>e. entry_timerID e = id0) (timermap data) = found" by simp
  have "(fst (SDL_RemoveTimer id0 data) = Inr ()) =
     (\<exists>entry. found = Some entry
        \<and> canceled (heap data (entry_timer entry)) = 0
        \<and> canceled (heap (snd (SDL_RemoveTimer id0 data)) (entry_timer entry)) \<noteq> 0)"
  proof (cases "id0 = 0")
    case True
    then show ?thesis by (auto simp: SDL_RemoveTimer_def)
  next
    case False
    with u show ?thesis
      by (cases found) (auto simp: SDL_RemoveTimer_def)
  qed
  with f zero show ?thesis by simp
qed

theorem remove_timer_result_witness:
  "fst (SDL_RemoveTimer 12 three_timers) = Inr ()
   \<and> find (\<lambda>e. entry_timerID e = 12) (timermap three_timers)
       = Some \<lparr>entry_timerID = 12, entry_timer = 2\<rparr>
   \<and> canceled (heap three_timers 2) = 0
   \<and> canceled (heap (snd (SDL_RemoveTimer 12 three_timers)) 2) = 1
   \<and> fst (SDL_RemoveTimer 12 (snd (SDL_RemoveTimer 12 three_timers))) = Inl (Error ''Timer not found'')
   \<and> fst (SDL_RemoveTimer 99 three_timers) = Inl (Error ''Timer not found'')
   \<and> SDL_RemoveTimer 0 three_timers = (Inl (InvalidParam ''id''), three_timers)"
  using remove_timer_result [of 12 three_timers] remove_timer_result [of 0 three_timers]
  by (simp add: SDL_RemoveTimer_def three_timers_def empty_data_def at_deadline_def no_timer_def)

subsection \<open>Firing a timer\<close>

lemma unat_Uint32_bound: "unat (r :: Uint32) < 4294967296"
  using unsigned_less [of r, where ?'a = nat] by simp

lemma unat_ucast_32_64: "unat (ucast (r :: Uint32) :: Uint64) = unat r"
proof -
  have "unat r < 2 ^ 64" using unat_Uint32_bound [of r] by simp
  then show ?thesis by (simp add: unsigned_ucast_eq take_bit_nat_eq_self)
qed

lemma SDL_MS_TO_NS_unat: "unat (SDL_MS_TO_NS r) = unat r * 1000000"
proof -
  have "unat r * 1000000 < 2 ^ 64" using unat_Uint32_bound [of r] by simp
  then have "unat ((ucast r :: Uint64) * 1000000) = unat (ucast r :: Uint64) * unat (1000000 :: Uint64)"
    by (simp add: unat_mult_lem [THEN iffD1] unat_ucast_32_64)
  then show ?thesis
    by (simp add: SDL_MS_TO_NS_def SDL_NS_PER_MS_def unat_ucast_32_64)
qed

lemma SDL_MS_TO_NS_zero: "(SDL_MS_TO_NS r = 0) = (r = 0)"
proof -
  have "(unat (SDL_MS_TO_NS r) = 0) = (unat r = 0)"
    by (simp add: SDL_MS_TO_NS_unat)
  then show ?thesis by (simp add: unat_eq_0)
qed

lemma invoke_callback_ms:
  assumes "callback_ms t = Some cb"
  shows "invoke_callback t
           = Some (SDL_MS_TO_NS (cb (userdata t) (timerID t) (ucast (SDL_NS_TO_MS (interval t)))))
       \<and> (SDL_MS_TO_NS (cb (userdata t) (timerID t) (ucast (SDL_NS_TO_MS (interval t)))) = 0)
           = (cb (userdata t) (timerID t) (ucast (SDL_NS_TO_MS (interval t))) = 0)"
  using assms by (simp add: invoke_callback_def SDL_MS_TO_NS_zero)

lemma invoke_callback_ns:
  assumes "callback_ms t = None" and "callback_ns t = Some cb"
  shows "invoke_callback t = Some (cb (userdata t) (timerID t) (interval t))"
  using assms by (simp add: invoke_callback_def)

text \<open>
  C4.  The head of \<open>timers\<close> is due at the worker's \<open>tick\<close> and not canceled.  The
  worker calls the record's own callback with the record's \<open>userdata\<close>, id and
  interval: the millisecond callback if there is one, with the interval in whole
  milliseconds, its result multiplied by 1000000; otherwise the nanosecond
  callback.  Let \<open>returned\<close> be the resulting interval in nanoseconds (for a
  millisecond callback it is exactly 1000000 times the result, so it is positive
  exactly when the result is).  If \<open>returned\<close> is positive, the record gets
  \<open>interval = returned\<close> and \<open>scheduled = tick + returned\<close> in 64-bit arithmetic,
  whatever its old deadline was, and is inserted again into the sorted list; the
  local freelist is unchanged.  If \<open>returned\<close> is 0, the record is marked canceled
  and appended at the end of the worker's local freelist, and is not inserted
  again.
\<close>

theorem dispatch_fire:
  assumes "timers data = current # rest"
    and "canceled (heap data current) = 0"
    and "\<not> tick < scheduled (heap data current)"
    and "(callback_ms (heap data current) = Some cb_ms
          \<and> returned = ucast (cb_ms (userdata (heap data current)) (timerID (heap data current))
                                  (ucast (interval (heap data current) div 1000000))) * 1000000)
       \<or> (callback_ms (heap data current) = None
          \<and> callback_ns (heap data current) = Some cb_ns
          \<and> returned = cb_ns (userdata (heap data current)) (timerID (heap data current))
                           (interval (heap data current)))"
  shows "(0 < returned \<longrightarrow>
            (\<exists>data'. SDL_TimerThread_dispatch tick data local_freelist = Dispatch_Next data' local_freelist
               \<and> timers data' = timers_insert (heap data') current rest
               \<and> current \<in> set (timers data')
               \<and> interval (heap data' current) = returned
               \<and> scheduled (heap data' current) = tick + returned))
       \<and> (returned = 0 \<longrightarrow>
            (\<exists>data'. SDL_TimerThread_dispatch tick data local_freelist
                        = Dispatch_Next data' (local_freelist @ [current])
               \<and> timers data' = rest
               \<and> canceled (heap data' current) = 1))
       \<and> (callback_ms (heap data current) = Some cb_ms \<longrightarrow>
            unat returned
              = unat (cb_ms (userdata (heap data current)) (timerID (heap data current))
                        (ucast (interval (heap data current) div 1000000))) * 1000000)"
proof -
  have inv: "invoke_callback (heap data current) = Some returned"
    using assms(4)
    by (auto simp: invoke_callback_def SDL_MS_TO_NS_def SDL_NS_TO_MS_def SDL_NS_PER_MS_def)
  have ms: "unat returned
              = unat (cb_ms (userdata (heap data current)) (timerID (heap data current))
                        (ucast (interval (heap data current) div 1000000))) * 1000000"
    if "callback_ms (heap data current) = Some cb_ms"
    using assms(4) that SDL_MS_TO_NS_unat
    by (auto simp: SDL_MS_TO_NS_def SDL_NS_PER_MS_def)
  note u = dispatch_unfold [OF assms(1) assms(3), of local_freelist]
  have fire: "(0 < returned \<longrightarrow>
            (\<exists>data'. SDL_TimerThread_dispatch tick data local_freelist = Dispatch_Next data' local_freelist
               \<and> timers data' = timers_insert (heap data') current rest
               \<and> current \<in> set (timers data')
               \<and> interval (heap data' current) = returned
               \<and> scheduled (heap data' current) = tick + returned))
       \<and> (returned = 0 \<longrightarrow>
            (\<exists>data'. SDL_TimerThread_dispatch tick data local_freelist
                        = Dispatch_Next data' (local_freelist @ [current])
               \<and> timers data' = rest
               \<and> canceled (heap data' current) = 1))"
  proof (cases "0 < returned")
    case True
    then have nz: "returned \<noteq> 0" by auto
    let ?h = "(heap data)(current := (heap data current)\<lparr>interval := returned, scheduled := tick + returned\<rparr>)"
    let ?d = "SDL_AddTimerInternal (data\<lparr>timers := rest, heap := ?h\<rparr>) current"
    have "SDL_TimerThread_dispatch tick data local_freelist = Dispatch_Next ?d local_freelist"
      using u inv assms(2) True by simp
    moreover have "heap ?d = ?h" by (simp add: SDL_AddTimerInternal_def)
    moreover have "timers ?d = timers_insert ?h current rest" by (simp add: SDL_AddTimerInternal_def)
    moreover have "current \<in> set (timers_insert ?h current rest)" by (simp add: timers_insert_set)
    ultimately show ?thesis using nz by simp
  next
    case False
    then have z: "returned = 0" by (simp add: word_gt_0)
    let ?h = "(heap data)(current := (heap data current)\<lparr>canceled := 1\<rparr>)"
    have "SDL_TimerThread_dispatch tick data local_freelist =
            Dispatch_Next (data\<lparr>timers := rest, heap := ?h\<rparr>) (local_freelist @ [current])"
      using u inv assms(2) z by simp
    with z show ?thesis by simp
  qed
  with ms show ?thesis by blast
qed

theorem dispatch_fire_witness:
  "(\<exists>data'. SDL_TimerThread_dispatch 15 three_timers [] = Dispatch_Next data' []
      \<and> timers data' = [2, 1, 3]
      \<and> interval (heap data' 1) = 10 \<and> scheduled (heap data' 1) = 25)
   \<and> (\<exists>data'. SDL_TimerThread_dispatch 15 ms_timer [] = Dispatch_Next data' []
      \<and> timers data' = [6]
      \<and> interval (heap data' 6) = 7000000 \<and> scheduled (heap data' 6) = 7000015)
   \<and> (\<exists>data'. SDL_TimerThread_dispatch 15 one_shot [9] = Dispatch_Next data' [9, 5]
      \<and> timers data' = [] \<and> canceled (heap data' 5) = 1)"
proof -
  have a: "timers three_timers = 1 # [2, 3]" "canceled (heap three_timers 1) = 0"
    "\<not> 15 < scheduled (heap three_timers 1)"
    "(callback_ms (heap three_timers 1) = Some (\<lambda>u t n. n)
          \<and> (10 :: Uint64) = ucast ((\<lambda>u t n. n) (userdata (heap three_timers 1)) (timerID (heap three_timers 1))
                                  (ucast (interval (heap three_timers 1) div 1000000) :: Uint32)) * 1000000)
       \<or> (callback_ms (heap three_timers 1) = None
          \<and> callback_ns (heap three_timers 1) = Some (\<lambda>u t n. n)
          \<and> (10 :: Uint64) = (\<lambda>u t n. n) (userdata (heap three_timers 1)) (timerID (heap three_timers 1))
                           (interval (heap three_timers 1)))"
    by (simp_all add: three_timers_def empty_data_def at_deadline_def no_timer_def)
  have b: "timers ms_timer = 6 # []" "canceled (heap ms_timer 6) = 0"
    "\<not> 15 < scheduled (heap ms_timer 6)"
    "(callback_ms (heap ms_timer 6) = Some (\<lambda>u t n. n)
          \<and> (7000000 :: Uint64) = ucast ((\<lambda>u t n. n) (userdata (heap ms_timer 6)) (timerID (heap ms_timer 6))
                                  (ucast (interval (heap ms_timer 6) div 1000000) :: Uint32)) * 1000000)
       \<or> (callback_ms (heap ms_timer 6) = None
          \<and> callback_ns (heap ms_timer 6) = Some (\<lambda>u t n. n)
          \<and> (7000000 :: Uint64) = (\<lambda>u t n. n) (userdata (heap ms_timer 6)) (timerID (heap ms_timer 6))
                           (interval (heap ms_timer 6)))"
    by (simp_all add: ms_timer_def empty_data_def no_timer_def)
  have c: "timers one_shot = 5 # []" "canceled (heap one_shot 5) = 0"
    "\<not> 15 < scheduled (heap one_shot 5)"
    "(callback_ms (heap one_shot 5) = Some (\<lambda>u t n. 0)
          \<and> (0 :: Uint64) = ucast ((\<lambda>u t n. 0) (userdata (heap one_shot 5)) (timerID (heap one_shot 5))
                                  (ucast (interval (heap one_shot 5) div 1000000) :: Uint32) :: Uint32) * 1000000)
       \<or> (callback_ms (heap one_shot 5) = None
          \<and> callback_ns (heap one_shot 5) = Some (\<lambda>u t n. n)
          \<and> (0 :: Uint64) = (\<lambda>u t n. n) (userdata (heap one_shot 5)) (timerID (heap one_shot 5))
                           (interval (heap one_shot 5)))"
    by (simp_all add: one_shot_def empty_data_def no_timer_def)
  from dispatch_fire [OF a, of "[]"] obtain d1 where
    d1: "SDL_TimerThread_dispatch 15 three_timers [] = Dispatch_Next d1 []"
      "interval (heap d1 1) = 10" "scheduled (heap d1 1) = 15 + 10"
    by auto
  have e1: "SDL_TimerThread_dispatch 15 three_timers [] =
      Dispatch_Next (SDL_AddTimerInternal (three_timers\<lparr>timers := [2, 3],
          heap := (heap three_timers)(1 := (heap three_timers 1)\<lparr>interval := 10, scheduled := 15 + 10\<rparr>)\<rparr>) 1) []"
    using dispatch_unfold [OF a(1) a(3), of "[]"] a(2)
    by (simp add: invoke_callback_def three_timers_def empty_data_def at_deadline_def no_timer_def)
  with d1(1) have "timers d1 = [2, 1, 3]"
    by (simp add: SDL_AddTimerInternal_def three_timers_def empty_data_def at_deadline_def no_timer_def)
  with d1 have one: "\<exists>data'. SDL_TimerThread_dispatch 15 three_timers [] = Dispatch_Next data' []
      \<and> timers data' = [2, 1, 3]
      \<and> interval (heap data' 1) = 10 \<and> scheduled (heap data' 1) = 25"
    by (intro exI [of _ d1]) simp
  from dispatch_fire [OF b, of "[]"] obtain d2 where
    d2: "SDL_TimerThread_dispatch 15 ms_timer [] = Dispatch_Next d2 []"
      "timers d2 = timers_insert (heap d2) 6 []"
      "interval (heap d2 6) = 7000000" "scheduled (heap d2 6) = 15 + 7000000"
    by auto
  then have two: "\<exists>data'. SDL_TimerThread_dispatch 15 ms_timer [] = Dispatch_Next data' []
      \<and> timers data' = [6]
      \<and> interval (heap data' 6) = 7000000 \<and> scheduled (heap data' 6) = 7000015"
    by (intro exI [of _ d2]) simp
  from dispatch_fire [OF c, of "[9]"] have three:
    "\<exists>data'. SDL_TimerThread_dispatch 15 one_shot [9] = Dispatch_Next data' [9, 5]
      \<and> timers data' = [] \<and> canceled (heap data' 5) = 1"
    by auto
  from one two three show ?thesis by blast
qed

subsection \<open>Creating a timer\<close>

text \<open>
  C5 (as amended).  \<open>SDL_CreateTimer\<close> fails with the invalid-parameter error
  exactly when neither callback is given; it then returns the id 0 and leaves the
  state unchanged.
\<close>

theorem create_timer_invalid_param:
  "(fst (SDL_CreateTimer env interval_ns cb_ms cb_ns ud data) = Inl (InvalidParam ''callback''))
     = (cb_ms = None \<and> cb_ns = None)
   \<and> SDL_CreateTimer env interval_ns None None ud data = (Inl (InvalidParam ''callback''), data)
   \<and> returned_id (fst (SDL_CreateTimer env interval_ns None None ud data)) = 0"
  by (auto simp: SDL_CreateTimer_def Let_def split: list.splits option.splits)

theorem create_timer_invalid_param_witness:
  "SDL_CreateTimer willing_env 50 None None 0 empty_data
     = (Inl (InvalidParam ''callback''), empty_data)
   \<and> fst (SDL_CreateTimer willing_env 50 None (Some (\<lambda>u t n. n)) 0 empty_data) = Inr 7"
  using create_timer_invalid_param [of willing_env 50 None None 0 empty_data]
  by (simp add: SDL_CreateTimer_def willing_env_def empty_data_def)

text \<open>
  C5 as stated fails when both callbacks are given: the call succeeds and
  returns the fresh id.
\<close>

theorem create_timer_invalid_param_counterexample:
  "fst (SDL_CreateTimer willing_env 50 (Some (\<lambda>u t n. n)) (Some (\<lambda>u t n. n)) 0 empty_data)
     = Inr 7
   \<and> returned_id (fst (SDL_CreateTimer willing_env 50 (Some (\<lambda>u t n. n))
                          (Some (\<lambda>u t n. n)) 0 empty_data)) \<noteq> 0"
  by (simp add: SDL_CreateTimer_def willing_env_def empty_data_def)

section \<open>Properties of the timer resolution and the clock\<close>

subsection \<open>The resolution hint\<close>

text \<open>
  C6 (as amended).  For an unset or empty hint the handler passes the period 1 to
  \<open>SDL_SetSystemTimerResolutionMS\<close>, which leaves a request of 1 ms installed.
  For the hint \<open>"0"\<close> the period is 0: the handler does nothing when the old and the
  new value are the same pointer, and otherwise passes 0, which revokes the
  installed request, if any, and installs none.
\<close>

theorem timer_resolution_hint:
  "SDL_TimerResolutionChanged have_tbp oldValue None st = SDL_SetSystemTimerResolutionMS have_tbp 1 st
   \<and> SDL_TimerResolutionChanged have_tbp oldValue (Some \<lparr>ptr = p, chars = []\<rparr>) st
       = SDL_SetSystemTimerResolutionMS have_tbp 1 st
   \<and> SDL_TimerResolutionChanged have_tbp oldValue (Some \<lparr>ptr = p, chars = ''0''\<rparr>) st
       = (if map_option ptr oldValue = Some p then st
          else SDL_SetSystemTimerResolutionMS have_tbp 0 st)
   \<and> timer_period (SDL_SetSystemTimerResolutionMS True 1 st) = 1
   \<and> timer_period (SDL_SetSystemTimerResolutionMS True 0 st) = 0
   \<and> os_calls (SDL_SetSystemTimerResolutionMS True 0 st)
       = os_calls st @ (if timer_period st = 0 then [] else [timeEndPeriod (timer_period st)])"
  by (simp add: SDL_TimerResolutionChanged_def hint_period_def SDL_atoi_def is_digit_def
      SDL_SetSystemTimerResolutionMS_def Let_def)

theorem timer_resolution_hint_witness:
  "SDL_TimerResolutionChanged True None None \<lparr>timer_period = 0, os_calls = []\<rparr>
     = \<lparr>timer_period = 1, os_calls = [timeBeginPeriod 1]\<rparr>
   \<and> SDL_TimerResolutionChanged True (Some \<lparr>ptr = 8, chars = ''5''\<rparr>) (Some \<lparr>ptr = 9, chars = []\<rparr>)
        \<lparr>timer_period = 5, os_calls = []\<rparr>
     = \<lparr>timer_period = 1, os_calls = [timeEndPeriod 5, timeBeginPeriod 1]\<rparr>
   \<and> SDL_TimerResolutionChanged True None (Some \<lparr>ptr = 9, chars = ''0''\<rparr>)
        \<lparr>timer_period = 1, os_calls = []\<rparr>
     = \<lparr>timer_period = 0, os_calls = [timeEndPeriod 1]\<rparr>"
  using timer_resolution_hint [of True None "\<lparr>timer_period = 0, os_calls = []\<rparr>"]
    timer_resolution_hint [of True "Some \<lparr>ptr = 8, chars = ''5''\<rparr>" "\<lparr>timer_period = 5, os_calls = []\<rparr>" 9]
    timer_resolution_hint [of True None "\<lparr>timer_period = 1, os_calls = []\<rparr>" 9]
  by (simp add: SDL_SetSystemTimerResolutionMS_def Let_def)

text \<open>
  C6 as stated fails for the hint \<open>"0"\<close>: with no request installed the handler
  installs none, where the unset hint installs 1 ms; with 1 ms installed it
  revokes the request.
\<close>

theorem timer_resolution_hint_counterexample:
  "SDL_TimerResolutionChanged True None (Some \<lparr>ptr = 9, chars = ''0''\<rparr>)
        \<lparr>timer_period = 0, os_calls = []\<rparr>
     = \<lparr>timer_period = 0, os_calls = []\<rparr>
   \<and> SDL_TimerResolutionChanged True None None \<lparr>timer_period = 0, os_calls = []\<rparr>
     = \<lparr>timer_period = 1, os_calls = [timeBeginPeriod 1]\<rparr>
   \<and> SDL_TimerResolutionChanged True None (Some \<lparr>ptr = 9, chars = ''0''\<rparr>)
        \<lparr>timer_period = 1, os_calls = []\<rparr>
     = \<lparr>timer_period = 0, os_calls = [timeEndPeriod 1]\<rparr>"
  by (simp add: SDL_TimerResolutionChanged_def hint_period_def SDL_atoi_def is_digit_def
      SDL_SetSystemTimerResolutionMS_def Let_def)

subsection \<open>The origin of the clock\<close>

text \<open>
  C7 (as amended).  \<open>SDL_InitTicks\<close> leaves an initialised clock alone;
  otherwise \<open>tick_start\<close> becomes the counter's value, or \<open>2^64 - 1\<close> when the
  counter reads zero (the decrement of zero wraps around).  In every case
  \<open>tick_start\<close> is not zero afterwards.
\<close>

theorem init_ticks_start:
  "tick_start (SDL_InitTicks tick_freq counter st) =
     (if tick_start st \<noteq> 0 then tick_start st
      else if counter = 0 then 18446744073709551615 else counter)
   \<and> tick_start (SDL_InitTicks tick_freq counter st) \<noteq> 0"
  by (simp add: SDL_InitTicks_def Let_def)

theorem init_ticks_start_witness:
  "tick_start (SDL_InitTicks 10000000 0 uninitialised) = 18446744073709551615
   \<and> tick_start (SDL_InitTicks 10000000 42 uninitialised) = 42"
  using init_ticks_start [of 10000000 0 uninitialised] init_ticks_start [of 10000000 42 uninitialised]
  by (simp add: uninitialised_def)

text \<open>
  C7 as stated fails when the counter reads zero: \<open>tick_start\<close> is not
  \<open>max 0 1 = 1\<close>.
\<close>

theorem init_ticks_start_counterexample:
  "tick_start (SDL_InitTicks 10000000 0 uninitialised) \<noteq> max 0 1"
  by (simp add: SDL_InitTicks_def Let_def uninitialised_def)

subsection \<open>The two readers of the clock\<close>

lemma unat_SDL_CalculateGCD: "unat (SDL_CalculateGCD a b) = gcd (unat a) (unat b)"
proof (induction a b rule: SDL_CalculateGCD.induct)
  case (1 a b)
  show ?case
  proof (cases "b = 0")
    case True
    then show ?thesis by (simp add: SDL_CalculateGCD.simps)
  next
    case False
    then have nz: "unat b \<noteq> 0" by (simp add: unat_eq_0)
    from False have "SDL_CalculateGCD a b = SDL_CalculateGCD b (a mod b)"
      by (subst SDL_CalculateGCD.simps) simp
    also have "unat \<dots> = gcd (unat b) (unat (a mod b))"
      using 1 False by simp
    also have "\<dots> = gcd (unat b) (unat a mod unat b)"
      by (simp add: unat_mod_distrib)
    also have "\<dots> = gcd (unat a) (unat b)"
      using nz by (metis gcd.commute gcd_red_nat)
    finally show ?thesis .
  qed
qed

lemma reduced_scale:
  fixes d n f :: nat
  assumes "0 < f"
  shows "(d * (n div gcd n f)) div (f div gcd n f) = (d * n) div f"
proof -
  define g where "g = gcd n f"
  have g: "0 < g" using assms by (simp add: g_def)
  obtain a where n: "n = g * a" unfolding g_def by (meson gcd_dvd1 dvdE)
  obtain b where f: "f = g * b" unfolding g_def by (meson gcd_dvd2 dvdE)
  have "(d * n) div f = (g * (d * a)) div (g * b)"
    by (simp add: n f ac_simps)
  also have "\<dots> = (d * a) div b"
    using g by simp
  finally have "(d * n) div f = (d * a) div b" .
  moreover have "n div g = a" "f div g = b" using g by (simp_all add: n f)
  ultimately show ?thesis unfolding g_def by simp
qed

lemma reduced_numerator_le:
  fixes f :: nat
  assumes "0 < f"
  shows "1000 div gcd 1000 f \<le> 1000000000 div gcd 1000000000 f"
proof -
  let ?g1 = "gcd 1000000000 f" and ?g2 = "gcd 1000 f"
  let ?a = "1000000000 div ?g1" and ?b = "f div ?g1" and ?c = "1000 div ?g2" and ?e = "f div ?g2"
  have g1: "0 < ?g1" and g2: "0 < ?g2" using assms by simp_all
  have a: "?g1 * ?a = 1000000000" and b: "?g1 * ?b = f"
    and c: "?g2 * ?c = 1000" and e: "?g2 * ?e = f" by simp_all
  have apos: "0 < ?a"
  proof (rule ccontr)
    assume "\<not> 0 < ?a"
    then have "?a = 0" by simp
    with a show False by (metis mult_0_right zero_neq_numeral)
  qed
  have "(?g1 * ?g2) * (?a * ?e) = (?g1 * ?a) * (?g2 * ?e)" by (simp only: ac_simps)
  also have "\<dots> = 1000000000 * f" by (simp only: a e)
  also have "\<dots> = (1000000 * (?g2 * ?c)) * (?g1 * ?b)" by (simp only: c b)
  also have "\<dots> = (?g1 * ?g2) * (1000000 * ?c * ?b)" by (simp only: ac_simps)
  finally have "?a * ?e = 1000000 * ?c * ?b" using g1 g2 by simp
  then have "?a * ?e = ?c * (1000000 * ?b)" by (simp only: ac_simps)
  then have "?c dvd ?a * ?e" by (rule dvdI)
  moreover have "coprime ?c ?e" using assms by (simp add: div_gcd_coprime)
  ultimately have "?c dvd ?a" by (simp add: coprime_dvd_mult_left_iff)
  with apos show ?thesis by (simp add: dvd_imp_le)
qed

lemma ns_to_ms:
  fixes d f :: nat
  shows "(d * 1000000000) div f div 1000000 = (d * 1000) div f"
proof -
  have "(d * 1000000000) div f div 1000000 = (d * 1000000000) div (f * 1000000)"
    by (simp add: div_mult2_eq)
  also have "\<dots> = ((d * 1000) * 1000000) div (f * 1000000)" by simp
  also have "\<dots> = (d * 1000) div f" by (rule div_mult_mult2) simp
  finally show ?thesis .
qed

lemma unat_ucast_64_32: "unat (w :: Uint64) < 4294967296 \<Longrightarrow> unat (ucast w :: Uint32) = unat w"
  by (simp add: unsigned_ucast_eq take_bit_nat_eq_self)

lemma init_ticks_scalers:
  assumes "tick_start st0 = 0" and "0 < unat tick_freq" and "unat tick_freq < 4294967296"
  shows "unat (tick_numerator_ns (SDL_InitTicks tick_freq counter st0))
           = 1000000000 div gcd 1000000000 (unat tick_freq)"
    and "unat (tick_denominator_ns (SDL_InitTicks tick_freq counter st0))
           = unat tick_freq div gcd 1000000000 (unat tick_freq)"
    and "unat (tick_numerator_ms (SDL_InitTicks tick_freq counter st0))
           = 1000 div gcd 1000 (unat tick_freq)"
    and "unat (tick_denominator_ms (SDL_InitTicks tick_freq counter st0))
           = unat tick_freq div gcd 1000 (unat tick_freq)"
proof -
  have f32: "unat (ucast tick_freq :: Uint32) = unat tick_freq"
    using assms(3) by (rule unat_ucast_64_32)
  have scaler: "unat (n div SDL_CalculateGCD n (ucast tick_freq)) = unat n div gcd (unat n) (unat tick_freq)
      \<and> unat (ucast (tick_freq div ucast (SDL_CalculateGCD n (ucast tick_freq))) :: Uint32)
          = unat tick_freq div gcd (unat n) (unat tick_freq)" for n :: Uint32
  proof -
    have g: "unat (SDL_CalculateGCD n (ucast tick_freq)) = gcd (unat n) (unat tick_freq)"
      by (simp add: unat_SDL_CalculateGCD f32)
    have "unat (tick_freq div ucast (SDL_CalculateGCD n (ucast tick_freq)))
            = unat tick_freq div gcd (unat n) (unat tick_freq)"
      by (simp add: unat_div unat_ucast_32_64 g)
    moreover have "unat tick_freq div gcd (unat n) (unat tick_freq) < 4294967296"
      using assms(3) by (meson div_le_dividend le_less_trans)
    ultimately have "unat (ucast (tick_freq div ucast (SDL_CalculateGCD n (ucast tick_freq))) :: Uint32)
          = unat tick_freq div gcd (unat n) (unat tick_freq)"
      by (simp add: unat_ucast_64_32)
    then show ?thesis by (simp add: unat_div g)
  qed
  have ns: "unat (1000000000 :: Uint32) = 1000000000" and ms: "unat (1000 :: Uint32) = 1000"
    by simp_all
  from scaler [of 1000000000] scaler [of 1000] assms(1)
  show "unat (tick_numerator_ns (SDL_InitTicks tick_freq counter st0))
           = 1000000000 div gcd 1000000000 (unat tick_freq)"
    and "unat (tick_denominator_ns (SDL_InitTicks tick_freq counter st0))
           = unat tick_freq div gcd 1000000000 (unat tick_freq)"
    and "unat (tick_numerator_ms (SDL_InitTicks tick_freq counter st0))
           = 1000 div gcd 1000 (unat tick_freq)"
    and "unat (tick_denominator_ms (SDL_InitTicks tick_freq counter st0))
           = unat tick_freq div gcd 1000 (unat tick_freq)"
    by (simp_all add: SDL_InitTicks_def Let_def SDL_NS_PER_SECOND_def SDL_MS_PER_SECOND_def ns ms)
qed

lemma init_ticks_initialised: "tick_start (SDL_InitTicks tick_freq counter st) \<noteq> 0"
  by (simp add: SDL_InitTicks_def Let_def)

lemma scale_without_wrap:
  fixes d :: Uint64 and num den :: Uint32
  assumes "unat d * unat num < 2 ^ 64"
  shows "unat ((d * ucast num) div ucast den) = (unat d * unat num) div unat den"
proof -
  from assms have "unat (d * (ucast num :: Uint64)) = unat d * unat num"
    by (simp add: unat_mult_lem [THEN iffD1] unat_ucast_32_64)
  then show ?thesis by (simp add: unat_div unat_ucast_32_64)
qed

text \<open>
  As long as the product of the elapsed counter ticks and the nanosecond
  numerator fits into 64 bits, both readers return the exact quotients, the
  nanosecond reading divided by 1000000 is the millisecond reading, and the
  nanosecond reading is monotone in the elapsed ticks.
\<close>

lemma ticks_without_wrap:
  assumes "tick_start st0 = 0" and "0 < unat tick_freq" and "unat tick_freq < 4294967296"
    and "st = SDL_InitTicks tick_freq c0 st0"
    and "unat (counter - tick_start st) * unat (tick_numerator_ns st) < 2 ^ 64"
  shows "\<exists>ns ms. fst (SDL_GetTicksNS tick_freq c0 counter st) = Some ns
           \<and> fst (SDL_GetTicks tick_freq c0 counter st) = Some ms
           \<and> unat ns = (unat (counter - tick_start st) * 1000000000) div unat tick_freq
           \<and> unat ms = (unat (counter - tick_start st) * 1000) div unat tick_freq
           \<and> unat ns div 1000000 = unat ms"
proof -
  note sc = init_ticks_scalers [OF assms(1-3), of c0, folded assms(4)]
  let ?d = "counter - tick_start st"
  let ?f = "unat tick_freq"
  have started: "tick_start st \<noteq> 0"
    unfolding assms(4) by (rule init_ticks_initialised)
  have den_pos: "0 < ?f div gcd n ?f" for n
  proof -
    have "gcd n ?f \<le> ?f" using assms(2) by (simp add: dvd_imp_le)
    moreover have "0 < gcd n ?f" using assms(2) by simp
    ultimately show ?thesis by (simp add: div_greater_zero_iff)
  qed
  have dns: "tick_denominator_ns st \<noteq> 0"
    using den_pos [of 1000000000] sc(2) by (auto simp: unat_eq_0 [symmetric])
  have dms: "tick_denominator_ms st \<noteq> 0"
    using den_pos [of 1000] sc(4) by (auto simp: unat_eq_0 [symmetric])
  have "unat (tick_numerator_ms st) \<le> unat (tick_numerator_ns st)"
    using reduced_numerator_le [OF assms(2)] by (simp add: sc)
  then have "unat ?d * unat (tick_numerator_ms st) \<le> unat ?d * unat (tick_numerator_ns st)"
    by simp
  with assms(5) have wms: "unat ?d * unat (tick_numerator_ms st) < 2 ^ 64"
    by linarith
  let ?ns = "(?d * ucast (tick_numerator_ns st)) div ucast (tick_denominator_ns st)"
  let ?ms = "(?d * ucast (tick_numerator_ms st)) div ucast (tick_denominator_ms st)"
  have ns: "unat ?ns = (unat ?d * 1000000000) div ?f"
    using scale_without_wrap [OF assms(5), of "tick_denominator_ns st"]
      reduced_scale [OF assms(2), of "unat ?d" 1000000000]
    by (simp add: sc)
  have ms: "unat ?ms = (unat ?d * 1000) div ?f"
    using scale_without_wrap [OF wms, of "tick_denominator_ms st"]
      reduced_scale [OF assms(2), of "unat ?d" 1000]
    by (simp add: sc)
  have "fst (SDL_GetTicksNS tick_freq c0 counter st) = Some ?ns"
    using started dns by (simp add: SDL_GetTicksNS_def Let_def)
  moreover have "fst (SDL_GetTicks tick_freq c0 counter st) = Some ?ms"
    using started dms by (simp add: SDL_GetTicks_def Let_def)
  moreover have "unat ?ns div 1000000 = unat ?ms"
    by (simp only: ns ms ns_to_ms)
  ultimately show ?thesis using ns ms by blast
qed

lemma ticks_monotone_without_wrap:
  assumes "tick_start st0 = 0" and "0 < unat tick_freq" and "unat tick_freq < 4294967296"
    and "st = SDL_InitTicks tick_freq c0 st0"
    and "unat (c2 - tick_start st) * unat (tick_numerator_ns st) < 2 ^ 64"
    and "unat (c1 - tick_start st) \<le> unat (c2 - tick_start st)"
    and "fst (SDL_GetTicksNS tick_freq c0 c1 st) = Some n1"
    and "fst (SDL_GetTicksNS tick_freq c0 c2 st) = Some n2"
  shows "n1 \<le> n2"
proof -
  from assms(6) have "unat (c1 - tick_start st) * unat (tick_numerator_ns st)
      \<le> unat (c2 - tick_start st) * unat (tick_numerator_ns st)"
    by simp
  with assms(5) have w1: "unat (c1 - tick_start st) * unat (tick_numerator_ns st) < 2 ^ 64"
    by linarith
  from ticks_without_wrap [OF assms(1-4) w1] assms(7)
  have u1: "unat n1 = (unat (c1 - tick_start st) * 1000000000) div unat tick_freq" by auto
  from ticks_without_wrap [OF assms(1-5)] assms(8)
  have u2: "unat n2 = (unat (c2 - tick_start st) * 1000000000) div unat tick_freq" by auto
  from assms(6) have "unat n1 \<le> unat n2"
    unfolding u1 u2 by (intro div_le_mono mult_le_mono1)
  then show ?thesis by (simp add: word_le_nat_alt)
qed

lemma hpet_clock_eq:
  "hpet_clock = \<lparr>tick_start = 1, tick_numerator_ns = 50000000, tick_denominator_ns = 715909,
                  tick_numerator_ms = 50, tick_denominator_ms = 715909\<rparr>"
  by (simp add: hpet_clock_def SDL_InitTicks_def uninitialised_def SDL_CalculateGCD.simps
      SDL_NS_PER_SECOND_def SDL_MS_PER_SECOND_def Let_def)

text \<open>
  C9.  The code breaks the claim where the product wraps around.  On a counter
  of 14318180 Hz the numerator is 50000000; from 368934881474 to 368934881475
  elapsed ticks (after about 7.2 hours) the nanosecond reading falls from
  25766883882867 to 56, the millisecond reading for the same ticks is 25766883,
  and the condition of the source's own assertion is false.
\<close>

theorem ticks_ns_wraps:
  "fst (SDL_GetTicksNS 14318180 1 368934881475 hpet_clock) = Some 25766883882867
   \<and> fst (SDL_GetTicksNS 14318180 1 368934881476 hpet_clock) = Some 56
   \<and> fst (SDL_GetTicks 14318180 1 368934881476 hpet_clock) = Some 25766883
   \<and> \<not> ticks_ns_assertion 368934881476 hpet_clock"
  by (simp add: hpet_clock_eq SDL_GetTicksNS_def SDL_GetTicks_def ticks_ns_assertion_def Let_def)

end
